theory Spec2Isabelle
  imports Main "HOL-Library.Word"
begin

unbundle bit_operations_syntax

section \<open>Data model of the translation cache manager\<close>

text \<open>
  Embedding of \<^verbatim>\<open>src/ExecBlock/ExecBlockManager.cpp\<close> (QBDI).  Guest addresses
  (\<^verbatim>\<open>rword\<close>) are 64-bit words, C \<^verbatim>\<open>unsigned\<close> values are 32-bit words, sequence
  and instruction identifiers (\<^verbatim>\<open>uint16_t\<close>) are 16-bit words, and \<^verbatim>\<open>size_t\<close>
  indices and sizes of containers are natural numbers.
\<close>

type_synonym rword = "64 word"

text \<open>
  Undefined behaviour and divergence are results: \<open>PatchOutOfBounds\<close> is an access
  outside the vector of patches handed to \<^verbatim>\<open>writeBasicBlock\<close>, \<open>OutOfBounds\<close> one
  outside a vector of the manager, \<open>InvalidPointer\<close> the use of a deleted block, and
  \<open>OutOfFuel\<close> a loop that has not ended within the given number of iterations.
\<close>

datatype error = OutOfBounds | PatchOutOfBounds | InvalidPointer | OutOfFuel

text \<open>
  Modelled from the spec: \<^verbatim>\<open>Range<rword>\<close> is declared in a header that is not part
  of the sources at hand.  The spec describes it as the half-open interval
  \<^verbatim>\<open>[start, end)\<close> with \<^verbatim>\<open>contains(addr)\<close>, \<^verbatim>\<open>contains(range)\<close>,
  \<^verbatim>\<open>overlaps(range)\<close> and \<^verbatim>\<open>size()\<close>.
\<close>

record Range =
  rstart :: rword
  rend :: rword

definition contains :: "Range \<Rightarrow> rword \<Rightarrow> bool" where
  "contains rg a = (rstart rg \<le> a \<and> a < rend rg)"

definition containsRange :: "Range \<Rightarrow> Range \<Rightarrow> bool" where
  "containsRange rg r = (rstart rg \<le> rstart r \<and> rend r \<le> rend rg)"

definition overlaps :: "Range \<Rightarrow> Range \<Rightarrow> bool" where
  "overlaps rg r = (rstart rg < rend r \<and> rstart r < rend rg)"

definition rsize :: "Range \<Rightarrow> rword" where
  "rsize rg = rend rg - rstart rg"

text \<open>
  A patch carries the metadata of one guest instruction; its body is opaque to the
  manager.  \<^verbatim>\<open>BBInfo\<close> holds the end points of an original basic block.
\<close>

record InstMetadata =
  address :: rword
  instSize :: rword

record Patch =
  metadata :: InstMetadata

record BBInfo =
  bbstart :: rword
  bbend :: rword

record SeqType =
  isEntry :: bool
  isExit :: bool

text \<open>
  \<^verbatim>\<open>ExecBlock*\<close> values are addresses in an explicit heap of blocks; \<^verbatim>\<open>None\<close> is
  \<^verbatim>\<open>nullptr\<close>.
\<close>

record SeqLoc =
  execBlock :: "nat option"
  seqID :: "16 word"
  bbIdx :: "16 word"

record InstLoc =
  blockIdx :: "16 word"
  instID :: "16 word"

record SeqWriteResult =
  res_seqID :: "16 word"
  patchWritten :: nat
  bytesWritten :: "32 word"

record InstAnalysis =
  analysisType :: nat
  analysisOf :: InstMetadata

record ExecRegion =
  covered :: Range
  translated :: rword
  available :: nat
  blocks :: "nat list"
  sequenceCache :: "rword \<rightharpoonup> SeqLoc"
  instCache :: "rword \<rightharpoonup> InstLoc"
  analysisCache :: "rword \<rightharpoonup> InstAnalysis"
  bbRegistry :: "BBInfo list"

record SearchCache =
  sc_address :: rword
  sc_regionIdx :: nat

record 'b ExecBlockManager =
  regions :: "ExecRegion list"
  total_translated_size :: nat
  total_translation_size :: nat
  searchCache :: SearchCache
  flushList :: "nat list"
  globalAnalysisCache :: "rword \<rightharpoonup> InstAnalysis"
  heap :: "nat \<rightharpoonup> 'b"
  heapNext :: nat

text \<open>
  The collaborators of the manager that are not in the sources at hand are parameters:
  the operations of \<^verbatim>\<open>ExecBlock\<close> over an abstract block state \<open>'b\<close>, the sentinel
  \<^verbatim>\<open>EXEC_BLOCK_FULL\<close>, the construction of an instruction analysis, and the single
  precision arithmetic of \<^verbatim>\<open>(unsigned) (x * getExpansionRatio())\<close>:
  \<open>floatScale env x tn td\<close> stands for
  \<^verbatim>\<open>(unsigned) ((float) x * ((float) tn / (float) td))\<close>.
\<close>

record 'b Env =
  EXEC_BLOCK_FULL :: "16 word"
  newExecBlock :: 'b
  writeSequence :: "'b \<Rightarrow> Patch list \<Rightarrow> SeqType \<Rightarrow> SeqWriteResult \<times> 'b"
  splitSequence :: "'b \<Rightarrow> 16 word \<Rightarrow> 16 word \<times> 'b"
  selectSeq :: "'b \<Rightarrow> 16 word \<Rightarrow> 'b"
  getSeqID :: "'b \<Rightarrow> 16 word \<Rightarrow> 16 word"
  getSeqStart :: "'b \<Rightarrow> 16 word \<Rightarrow> 16 word"
  getSeqEnd :: "'b \<Rightarrow> 16 word \<Rightarrow> 16 word"
  getInstAddress :: "'b \<Rightarrow> 16 word \<Rightarrow> rword"
  getEpilogueOffset :: "'b \<Rightarrow> 32 word"
  floatScale :: "nat \<Rightarrow> nat \<Rightarrow> nat \<Rightarrow> 32 word"
  buildAnalysis :: "InstMetadata \<Rightarrow> nat \<Rightarrow> InstAnalysis"

text \<open>The constructor: both counters start at 1, the search cache at \<^verbatim>\<open>{0, 0}\<close>.\<close>

definition newManager :: "'b ExecBlockManager" where
  "newManager = \<lparr> regions = [], total_translated_size = 1, total_translation_size = 1,
     searchCache = \<lparr> sc_address = 0, sc_regionIdx = 0 \<rparr>, flushList = [],
     globalAnalysisCache = Map.empty, heap = Map.empty, heapNext = 0 \<rparr>"

section \<open>RegionIndex: searchRegion\<close>

text \<open>
  The binary search loop \<^verbatim>\<open>while(low + 1 != high)\<close>.  Not returning is \<open>None\<close>; an
  index outside the vector is the error \<open>OutOfBounds\<close>.
\<close>

partial_function (option) searchLoop ::
  "ExecRegion list \<Rightarrow> rword \<Rightarrow> nat \<Rightarrow> nat \<Rightarrow> (error + nat) option" where
  "searchLoop rs a low high =
     (if low + 1 \<noteq> high then
        (if length rs \<le> (low + high) div 2 then Some (Inl OutOfBounds)
         else if a < rstart (covered (rs ! ((low + high) div 2))) then
           searchLoop rs a low ((low + high) div 2)
         else if rend (covered (rs ! ((low + high) div 2))) \<le> a then
           searchLoop rs a ((low + high) div 2) high
         else Some (Inr ((low + high) div 2)))
      else Some (Inr low))"

declare searchLoop.simps [code]

definition searchRegion ::
  "rword \<Rightarrow> 'b ExecBlockManager \<Rightarrow> error + (nat \<times> 'b ExecBlockManager)" where
  "searchRegion a s =
     (if length (regions s) = 0 then Inr (0, s)
      else if sc_address (searchCache s) = a then Inr (sc_regionIdx (searchCache s), s)
      else (case searchLoop (regions s) a 0 (length (regions s)) of
              None \<Rightarrow> Inl OutOfFuel
            | Some (Inl e) \<Rightarrow> Inl e
            | Some (Inr i) \<Rightarrow>
                Inr (i, s\<lparr> searchCache := \<lparr> sc_address = a, sc_regionIdx = i \<rparr> \<rparr>)))"

section \<open>RegionAllocator: updateRegionStat\<close>

definition updateRegionStat ::
  "'b Env \<Rightarrow> nat \<Rightarrow> rword \<Rightarrow> 'b ExecBlockManager \<Rightarrow> error + 'b ExecBlockManager" where
  "updateRegionStat env r t s =
     (if length (regions s) \<le> r then Inl OutOfBounds
      else
        let reg = regions s ! r;
            reg1 = reg\<lparr> translated := translated reg + t \<rparr>
        in (case blocks reg1 of
              [] \<Rightarrow> Inl OutOfBounds
            | p # _ \<Rightarrow>
               (case heap s p of
                  None \<Rightarrow> Inl InvalidPointer
                | Some b \<Rightarrow>
                    let avail = unat (getEpilogueOffset env b);
                        reserved = unat (floatScale env (unat (rsize (covered reg1) - translated reg1))
                                     (total_translation_size s) (total_translated_size s));
                        reg2 = (if avail < reserved then reg1\<lparr> available := 0 \<rparr>
                                else reg1\<lparr> available := avail - reserved \<rparr>)
                    in Inr (s\<lparr> regions := (regions s)[r := reg2] \<rparr>))))"

section \<open>RegionAllocator: findRegion\<close>

text \<open>
  The cost of extending a region to cover \<open>cr\<close>, accumulated in a C \<^verbatim>\<open>unsigned\<close>:
  each difference of guest addresses is truncated to 32 bits when it is added.
\<close>

definition extensionCost :: "Range \<Rightarrow> Range \<Rightarrow> 32 word" where
  "extensionCost cov cr =
     (if rend cov < rend cr then ucast (rend cr - rend cov) else 0) +
     (if rstart cr < rstart cov then ucast (rstart cov - rstart cr) else 0)"

text \<open>
  The candidate loop \<^verbatim>\<open>for(i = low; i < low + 3 && i < regions.size(); i++)\<close>, run
  over the list of its indices.  \<open>Inl i\<close> is the early return of a region that contains
  the range; \<open>Inr\<close> carries \<^verbatim>\<open>best_cost\<close> and \<^verbatim>\<open>best_region\<close> at the end of the loop.
\<close>

fun scanCandidates ::
  "'b Env \<Rightarrow> Range \<Rightarrow> 'b ExecBlockManager \<Rightarrow> nat list \<Rightarrow> 32 word \<Rightarrow> nat
     \<Rightarrow> nat + (32 word \<times> nat)" where
  "scanCandidates env cr s [] best_cost best_region = Inr (best_cost, best_region)"
| "scanCandidates env cr s (i # cands) best_cost best_region =
     (if containsRange (covered (regions s ! i)) cr then Inl i
      else if unat (floatScale env (unat (extensionCost (covered (regions s ! i)) cr))
                      (total_translation_size s) (total_translated_size s))
                < available (regions s ! i)
              \<and> extensionCost (covered (regions s ! i)) cr < best_cost
           then scanCandidates env cr s cands (extensionCost (covered (regions s ! i)) cr) i
           else scanCandidates env cr s cands best_cost best_region)"

definition candidates :: "nat \<Rightarrow> nat \<Rightarrow> nat list" where
  "candidates low n = [low ..< min (low + 3) n]"

text \<open>The loop that looks for the place of a new region, starting at \<^verbatim>\<open>low\<close>.\<close>

function findInsert :: "ExecRegion list \<Rightarrow> rword \<Rightarrow> nat \<Rightarrow> nat" where
  "findInsert rs a ins =
     (if ins < length rs then
        (if a < rstart (covered (rs ! ins)) then ins else findInsert rs a (ins + 1))
      else ins)"
  by pat_completeness auto
termination
  by (relation "measure (\<lambda>(rs, a, ins). length rs - ins)") auto

declare findInsert.simps [simp del]

definition extendCovered :: "Range \<Rightarrow> Range \<Rightarrow> Range" where
  "extendCovered cov cr =
     (let c1 = (if rend cov < rend cr then cov\<lparr> rend := rend cr \<rparr> else cov)
      in if rstart cr < rstart c1 then c1\<lparr> rstart := rstart cr \<rparr> else c1)"

definition newRegion :: "Range \<Rightarrow> ExecRegion" where
  "newRegion cr = \<lparr> covered = cr, translated = 0, available = 0, blocks = [],
     sequenceCache = Map.empty, instCache = Map.empty, analysisCache = Map.empty,
     bbRegistry = [] \<rparr>"

definition setSearchCache :: "rword \<Rightarrow> nat \<Rightarrow> 'b ExecBlockManager \<Rightarrow> 'b ExecBlockManager" where
  "setSearchCache a i s = s\<lparr> searchCache := \<lparr> sc_address = a, sc_regionIdx = i \<rparr> \<rparr>"

definition findRegion ::
  "'b Env \<Rightarrow> Range \<Rightarrow> 'b ExecBlockManager \<Rightarrow> error + (nat \<times> 'b ExecBlockManager)" where
  "findRegion env cr s =
     (case searchRegion (rstart cr) s of
        Inl e \<Rightarrow> Inl e
      | Inr (low, s1) \<Rightarrow>
         (case scanCandidates env cr s1 (candidates low (length (regions s1)))
                 0xFFFFFFFF (length (regions s1)) of
            Inl i \<Rightarrow> Inr (i, setSearchCache (rstart cr) i s1)
          | Inr (best_cost, best_region) \<Rightarrow>
              if best_region \<noteq> length (regions s1) then
                Inr (best_region,
                     setSearchCache (rstart cr) best_region
                       (s1\<lparr> regions := (regions s1)[best_region :=
                              (regions s1 ! best_region)
                                \<lparr> covered := extendCovered (covered (regions s1 ! best_region)) cr \<rparr>] \<rparr>))
              else
                (let ins = findInsert (regions s1) (rstart cr) low
                 in if length (regions s1) < ins then Inl OutOfBounds
                    else Inr (ins,
                              setSearchCache (rstart cr) ins
                                (s1\<lparr> regions := take ins (regions s1) @ [newRegion cr]
                                                   @ drop ins (regions s1) \<rparr>)))))"

section \<open>SequenceLookup: getSeqLoc, getExecBlock, getBBInfo\<close>

definition nullSeqLoc :: SeqLoc where
  "nullSeqLoc = \<lparr> execBlock = None, seqID = 0, bbIdx = 0 \<rparr>"

text \<open>
  \<^verbatim>\<open>sequenceCache[existingBBAddress]\<close> is \<^verbatim>\<open>std::map::operator[]\<close>: a missing key is
  inserted with a value-initialised \<^verbatim>\<open>SeqLoc\<close>.  The index of the last element of
  \<^verbatim>\<open>bbRegistry\<close>, \<^verbatim>\<open>size() - 1\<close>, is stored in a \<^verbatim>\<open>uint16_t\<close>: it is the size minus one
  in 16-bit arithmetic.
\<close>

definition lookupOrInsert :: "(rword \<rightharpoonup> SeqLoc) \<Rightarrow> rword \<Rightarrow> SeqLoc \<times> (rword \<rightharpoonup> SeqLoc)" where
  "lookupOrInsert m k =
     (case m k of Some v \<Rightarrow> (v, m) | None \<Rightarrow> (nullSeqLoc, m(k \<mapsto> nullSeqLoc)))"

definition splitAt ::
  "'b Env \<Rightarrow> rword \<Rightarrow> nat \<Rightarrow> InstLoc \<Rightarrow> 'b ExecBlockManager
     \<Rightarrow> error + (SeqLoc \<times> 'b ExecBlockManager)" where
  "splitAt env a r instLoc s =
     (let reg = regions s ! r in
      if length (blocks reg) \<le> unat (blockIdx instLoc) then Inl OutOfBounds
      else
        (case heap s (blocks reg ! unat (blockIdx instLoc)) of
           None \<Rightarrow> Inl InvalidPointer
         | Some b \<Rightarrow>
            (let block = blocks reg ! unat (blockIdx instLoc);
                 existingSeqId = getSeqID env b (instID instLoc);
                 existingBBAddress = getInstAddress env b (getSeqStart env b existingSeqId);
                 (existing, sc1) = lookupOrInsert (sequenceCache reg) existingBBAddress;
                 existingBBIdx = bbIdx existing
             in if length (bbRegistry reg) \<le> unat existingBBIdx then Inl OutOfBounds
                else
                  (let bbr = bbRegistry reg @
                         [\<lparr> bbstart = a, bbend = bbend (bbRegistry reg ! unat existingBBIdx) \<rparr>];
                       (newSeqID, b') = splitSequence env b (instID instLoc);
                       newBBIdx = (word_of_nat (length bbr) - 1 :: 16 word);
                       seqLoc = \<lparr> execBlock = Some block, seqID = newSeqID, bbIdx = newBBIdx \<rparr>
                   in Inr (seqLoc,
                           s\<lparr> regions := (regions s)[r :=
                                  reg\<lparr> sequenceCache := sc1(a \<mapsto> seqLoc), bbRegistry := bbr \<rparr>],
                              heap := (heap s)(block \<mapsto> b') \<rparr>)))))"

definition getSeqLoc ::
  "'b Env \<Rightarrow> rword \<Rightarrow> 'b ExecBlockManager \<Rightarrow> error + (SeqLoc \<times> 'b ExecBlockManager)" where
  "getSeqLoc env a s =
     (case searchRegion a s of
        Inl e \<Rightarrow> Inl e
      | Inr (r, s1) \<Rightarrow>
          if r < length (regions s1) \<and> contains (covered (regions s1 ! r)) a then
            (case sequenceCache (regions s1 ! r) a of
               Some seqLoc \<Rightarrow> Inr (seqLoc, s1)
             | None \<Rightarrow>
                (case instCache (regions s1 ! r) a of
                   Some instLoc \<Rightarrow> splitAt env a r instLoc s1
                 | None \<Rightarrow> Inr (nullSeqLoc, s1)))
          else Inr (nullSeqLoc, s1))"

definition getExecBlock ::
  "'b Env \<Rightarrow> rword \<Rightarrow> 'b ExecBlockManager \<Rightarrow> error + (nat option \<times> 'b ExecBlockManager)" where
  "getExecBlock env a s =
     (case getSeqLoc env a s of
        Inl e \<Rightarrow> Inl e
      | Inr (seqLoc, s1) \<Rightarrow>
         (case execBlock seqLoc of
            None \<Rightarrow> Inr (None, s1)
          | Some p \<Rightarrow>
             (case heap s1 p of
                None \<Rightarrow> Inl InvalidPointer
              | Some b \<Rightarrow>
                  Inr (Some p, s1\<lparr> heap := (heap s1)(p \<mapsto> selectSeq env b (seqID seqLoc)) \<rparr>))))"

definition getBBInfo ::
  "rword \<Rightarrow> 'b ExecBlockManager \<Rightarrow> error + (BBInfo option \<times> 'b ExecBlockManager)" where
  "getBBInfo a s =
     (case searchRegion a s of
        Inl e \<Rightarrow> Inl e
      | Inr (r, s1) \<Rightarrow>
          if r < length (regions s1) \<and> contains (covered (regions s1 ! r)) a then
            (case sequenceCache (regions s1 ! r) a of
               Some seqLoc \<Rightarrow>
                 if length (bbRegistry (regions s1 ! r)) \<le> unat (bbIdx seqLoc)
                 then Inl OutOfBounds
                 else Inr (Some (bbRegistry (regions s1 ! r) ! unat (bbIdx seqLoc)), s1)
             | None \<Rightarrow> Inr (None, s1))
          else Inr (None, s1))"

section \<open>SequenceWriter: writeBasicBlock\<close>

text \<open>
  The truncation loop: the lowest index whose address is already a key of the
  sequence cache, or the size of the block.
\<close>

fun truncation :: "(rword \<rightharpoonup> SeqLoc) \<Rightarrow> Patch list \<Rightarrow> nat" where
  "truncation sc [] = 0"
| "truncation sc (p # ps) =
     (if sc (address (metadata p)) \<noteq> None then 0 else Suc (truncation sc ps))"

text \<open>
  The loop \<^verbatim>\<open>for(uint16_t id = startID; id <= endID; id++)\<close>.  The counter is a
  16-bit word, so \<open>id + 1\<close> wraps; the index \<^verbatim>\<open>patchIdx + id - startID\<close> is computed
  in \<^verbatim>\<open>size_t\<close>, where a negative value is far beyond any vector.
\<close>

fun populateInstCache ::
  "nat \<Rightarrow> Patch list \<Rightarrow> nat \<Rightarrow> nat \<Rightarrow> 16 word \<Rightarrow> 16 word \<Rightarrow> 16 word
     \<Rightarrow> (rword \<rightharpoonup> InstLoc) \<Rightarrow> error + (rword \<rightharpoonup> InstLoc)" where
  "populateInstCache 0 bb patchIdx i startID endID ident ic =
     (if ident \<le> endID then Inl OutOfFuel else Inr ic)"
| "populateInstCache (Suc fuel) bb patchIdx i startID endID ident ic =
     (if ident \<le> endID then
        (if patchIdx + unat ident < unat startID
            \<or> length bb \<le> patchIdx + unat ident - unat startID
         then Inl PatchOutOfBounds
         else populateInstCache fuel bb patchIdx i startID endID (ident + 1)
                (ic(address (metadata (bb ! (patchIdx + unat ident - unat startID)))
                      \<mapsto> \<lparr> blockIdx = word_of_nat i, instID = ident \<rparr>)))
      else Inr ic)"

text \<open>\<^verbatim>\<open>regions[r].blocks.push_back(new ExecBlock(assembly, vminstance))\<close>\<close>

definition pushNewBlock :: "'b Env \<Rightarrow> nat \<Rightarrow> 'b ExecBlockManager \<Rightarrow> 'b ExecBlockManager" where
  "pushNewBlock env r s =
     s\<lparr> regions := (regions s)[r := (regions s ! r)
                        \<lparr> blocks := blocks (regions s ! r) @ [heapNext s] \<rparr>],
        heap := (heap s)(heapNext s \<mapsto> newExecBlock env),
        heapNext := heapNext s + 1 \<rparr>"

text \<open>
  What happens once \<^verbatim>\<open>writeSequence\<close> has succeeded in block \<open>i\<close> (at address \<open>p\<close>):
  the caches are filled and the guest bytes covered by the written patches are
  computed.  The result is \<^verbatim>\<open>res.patchWritten\<close>, the guest span, \<^verbatim>\<open>res.bytesWritten\<close>
  and the new state.
\<close>

definition recordSequence ::
  "nat \<Rightarrow> 'b Env \<Rightarrow> Patch list \<Rightarrow> nat \<Rightarrow> nat \<Rightarrow> nat \<Rightarrow> nat \<Rightarrow> SeqWriteResult
     \<Rightarrow> 'b ExecBlockManager \<Rightarrow> error + (nat \<times> rword \<times> 32 word \<times> 'b ExecBlockManager)" where
  "recordSequence fuel env bb r patchIdx i p res s =
     (let reg = regions s ! r;
          currentSeq = \<lparr> execBlock = Some p, seqID = res_seqID res,
                         bbIdx = word_of_nat (length (bbRegistry reg)) - 1 \<rparr>
      in if length bb \<le> patchIdx then Inl PatchOutOfBounds
         else
           (case heap s p of
              None \<Rightarrow> Inl InvalidPointer
            | Some b \<Rightarrow>
               (case populateInstCache fuel bb patchIdx i
                       (getSeqStart env b (res_seqID res)) (getSeqEnd env b (res_seqID res))
                       (getSeqStart env b (res_seqID res)) (instCache reg) of
                  Inl e \<Rightarrow> Inl e
                | Inr ic \<Rightarrow>
                    if patchIdx + patchWritten res = 0
                       \<or> length bb \<le> patchIdx + patchWritten res - 1
                    then Inl PatchOutOfBounds
                    else
                      Inr (patchWritten res,
                           (address (metadata (bb ! (patchIdx + patchWritten res - 1)))
                              + instSize (metadata (bb ! (patchIdx + patchWritten res - 1))))
                             - address (metadata (bb ! patchIdx)),
                           bytesWritten res,
                           s\<lparr> regions := (regions s)[r :=
                                  reg\<lparr> sequenceCache := (sequenceCache reg)
                                          (address (metadata (bb ! patchIdx)) \<mapsto> currentSeq),
                                       instCache := ic \<rparr>] \<rparr>))))"

text \<open>The loop \<^verbatim>\<open>for(size_t i = 0; true; i++)\<close> over the blocks of region \<open>r\<close>.\<close>

fun writeInner ::
  "nat \<Rightarrow> 'b Env \<Rightarrow> Patch list \<Rightarrow> nat \<Rightarrow> nat \<Rightarrow> nat \<Rightarrow> nat \<Rightarrow> 'b ExecBlockManager
     \<Rightarrow> error + (nat \<times> rword \<times> 32 word \<times> 'b ExecBlockManager)" where
  "writeInner 0 env bb r patchIdx patchEnd i s = Inl OutOfFuel"
| "writeInner (Suc fuel) env bb r patchIdx patchEnd i s =
     (if length (regions s) \<le> r then Inl OutOfBounds
      else
        (let s1 = (if length (blocks (regions s ! r)) \<le> i then pushNewBlock env r s else s)
         in if length (blocks (regions s1 ! r)) \<le> i then Inl OutOfBounds
            else
              (case heap s1 (blocks (regions s1 ! r) ! i) of
                 None \<Rightarrow> Inl InvalidPointer
               | Some b \<Rightarrow>
                  (let p = blocks (regions s1 ! r) ! i;
                       seqType = \<lparr> isEntry = (patchIdx = 0), isExit = (patchEnd = length bb) \<rparr>;
                       (res, b') = writeSequence env b
                                     (take (patchEnd - patchIdx) (drop patchIdx bb)) seqType;
                       s2 = s1\<lparr> heap := (heap s1)(p \<mapsto> b') \<rparr>
                   in if res_seqID res \<noteq> EXEC_BLOCK_FULL env
                      then recordSequence fuel env bb r patchIdx i p res s2
                      else writeInner fuel env bb r patchIdx patchEnd (i + 1) s2))))"

text \<open>The loop \<^verbatim>\<open>while(patchIdx < patchEnd)\<close> with its two \<^verbatim>\<open>unsigned\<close> counters.\<close>

fun writeLoop ::
  "nat \<Rightarrow> 'b Env \<Rightarrow> Patch list \<Rightarrow> nat \<Rightarrow> nat \<Rightarrow> nat \<Rightarrow> 32 word \<Rightarrow> 32 word
     \<Rightarrow> 'b ExecBlockManager \<Rightarrow> error + (32 word \<times> 32 word \<times> 'b ExecBlockManager)" where
  "writeLoop 0 env bb r patchEnd patchIdx tr tn s =
     (if patchIdx < patchEnd then Inl OutOfFuel else Inr (tr, tn, s))"
| "writeLoop (Suc fuel) env bb r patchEnd patchIdx tr tn s =
     (if patchIdx < patchEnd then
        (case writeInner fuel env bb r patchIdx patchEnd 0 s of
           Inl e \<Rightarrow> Inl e
         | Inr (pw, span, bw, s') \<Rightarrow>
             writeLoop fuel env bb r patchEnd (patchIdx + pw) (tr + ucast span) (tn + bw) s')
      else Inr (tr, tn, s))"

text \<open>
  The code range of a block, from the address of its first patch to the end of its last
  one; the addition is that of guest words and wraps around.
\<close>

definition codeRangeOf :: "Patch list \<Rightarrow> Range" where
  "codeRangeOf bb = \<lparr> rstart = address (metadata (hd bb)),
     rend = address (metadata (last bb)) + instSize (metadata (last bb)) \<rparr>"

definition registerBB :: "Patch list \<Rightarrow> nat \<Rightarrow> 'b ExecBlockManager \<Rightarrow> 'b ExecBlockManager" where
  "registerBB bb r s =
     s\<lparr> regions := (regions s)[r := (regions s ! r)
          \<lparr> bbRegistry := bbRegistry (regions s ! r) @
               [\<lparr> bbstart = address (metadata (hd bb)),
                  bbend = address (metadata (last bb)) + instSize (metadata (last bb)) \<rparr>] \<rparr>] \<rparr>"

text \<open>
  \<^verbatim>\<open>basicBlock.front()\<close> and \<^verbatim>\<open>basicBlock.back()\<close> are read before anything else:
  on an empty vector both are out of bounds.
\<close>

definition writeBasicBlock ::
  "'b Env \<Rightarrow> nat \<Rightarrow> Patch list \<Rightarrow> 'b ExecBlockManager \<Rightarrow> error + 'b ExecBlockManager" where
  "writeBasicBlock env fuel bb s =
     (if bb = [] then Inl PatchOutOfBounds
      else
        (case findRegion env (codeRangeOf bb) s of
           Inl e \<Rightarrow> Inl e
         | Inr (r, s1) \<Rightarrow>
             if length (regions s1) \<le> r then Inl OutOfBounds
             else if truncation (sequenceCache (regions s1 ! r)) bb = 0 then Inr s1
             else
               (case writeLoop fuel env bb r
                       (truncation (sequenceCache (regions s1 ! r)) bb) 0 0 0
                       (registerBB bb r s1) of
                  Inl e \<Rightarrow> Inl e
                | Inr (tr, tn, s3) \<Rightarrow>
                    updateRegionStat env r (ucast tr)
                      (s3\<lparr> total_translation_size := total_translation_size s3 + unat tn,
                           total_translated_size := total_translated_size s3 + unat tr \<rparr>))))"

section \<open>InstAnalysisCache: analyzeInstMetadata\<close>

text \<open>
  Only the cache traffic is modelled; the analysis itself is built by the parameter
  \<open>buildAnalysis\<close>.  The argument is \<open>None\<close> for a null \<^verbatim>\<open>instMetadata\<close>.
\<close>

definition analyzeInstMetadata ::
  "'b Env \<Rightarrow> InstMetadata option \<Rightarrow> nat \<Rightarrow> 'b ExecBlockManager
     \<Rightarrow> error + (InstAnalysis option \<times> 'b ExecBlockManager)" where
  "analyzeInstMetadata env md ty s =
     (case md of
        None \<Rightarrow> Inr (None, s)
      | Some m \<Rightarrow>
         (case searchRegion (address m) s of
            Inl e \<Rightarrow> Inl e
          | Inr (r, s1) \<Rightarrow>
             (let inRegion = (r < length (regions s1)
                                \<and> contains (covered (regions s1 ! r)) (address m));
                  cached = (if inRegion then analysisCache (regions s1 ! r) (address m) else None);
                  usable = (case cached of
                              None \<Rightarrow> None
                            | Some an \<Rightarrow> if (analysisType an AND ty) \<noteq> ty then None else Some an)
              in case usable of
                   Some an \<Rightarrow> Inr (Some an, s1)
                 | None \<Rightarrow>
                    (let an = (buildAnalysis env m ty)\<lparr> analysisType := ty \<rparr>
                     in if inRegion then
                          Inr (Some an,
                               s1\<lparr> regions := (regions s1)[r := (regions s1 ! r)
                                    \<lparr> analysisCache := (analysisCache (regions s1 ! r))
                                                          (address m \<mapsto> an) \<rparr>] \<rparr>)
                        else
                          Inr (Some an,
                               s1\<lparr> globalAnalysisCache :=
                                     (globalAnalysisCache s1)(address m \<mapsto> an) \<rparr>)))))"

section \<open>Invalidation\<close>

definition eraseRegion :: "nat \<Rightarrow> 'b ExecBlockManager \<Rightarrow> error + 'b ExecBlockManager" where
  "eraseRegion r s =
     (if length (regions s) \<le> r then Inl OutOfBounds
      else Inr (s\<lparr> heap := (\<lambda>p. if p \<in> set (blocks (regions s ! r)) then None else heap s p),
                   regions := take r (regions s) @ drop (r + 1) (regions s) \<rparr>))"

definition clearCacheRange :: "Range \<Rightarrow> 'b ExecBlockManager \<Rightarrow> 'b ExecBlockManager" where
  "clearCacheRange rg s =
     s\<lparr> flushList := flushList s @
          filter (\<lambda>i. overlaps (covered (regions s ! i)) rg) [0 ..< length (regions s)] \<rparr>"

definition clearCacheSet :: "Range list \<Rightarrow> 'b ExecBlockManager \<Rightarrow> 'b ExecBlockManager" where
  "clearCacheSet ranges s =
     (fold clearCacheRange ranges s)\<lparr> total_translated_size := 1, total_translation_size := 1 \<rparr>"

fun eraseEach :: "nat list \<Rightarrow> 'b ExecBlockManager \<Rightarrow> error + 'b ExecBlockManager" where
  "eraseEach [] s = Inr s"
| "eraseEach (r # rs) s =
     (case eraseRegion r s of Inl e \<Rightarrow> Inl e | Inr s' \<Rightarrow> eraseEach rs s')"

text \<open>
  \<^verbatim>\<open>std::sort\<close> with \<^verbatim>\<open>std::greater\<close> is the reversed ascending sort, and
  \<^verbatim>\<open>std::unique\<close> drops adjacent duplicates.
\<close>

definition flushCommit :: "'b ExecBlockManager \<Rightarrow> error + 'b ExecBlockManager" where
  "flushCommit s =
     (if 0 < length (flushList s) then
        (case eraseEach (remdups_adj (rev (sort (flushList s)))) s of
           Inl e \<Rightarrow> Inl e
         | Inr s' \<Rightarrow>
             Inr (s'\<lparr> flushList := [], globalAnalysisCache := Map.empty,
                      searchCache := \<lparr> sc_address = 0, sc_regionIdx = 0 \<rparr> \<rparr>))
      else Inr s)"

function clearCacheAll :: "'b ExecBlockManager \<Rightarrow> error + 'b ExecBlockManager" where
  "clearCacheAll s =
     (if 0 < length (regions s) then
        (case eraseRegion (length (regions s) - 1) s of
           Inl e \<Rightarrow> Inl e
         | Inr s' \<Rightarrow> clearCacheAll s')
      else Inr s)"
  by pat_completeness auto
termination
proof (relation "measure (\<lambda>s. length (regions s))")
  show "wf (measure (\<lambda>s. length (regions s)))" by simp
next
  fix s :: "'b ExecBlockManager" and s'
  assume "0 < length (regions s)" and "eraseRegion (length (regions s) - 1) s = Inr s'"
  then show "(s', s) \<in> measure (\<lambda>s. length (regions s))"
    by (auto simp: eraseRegion_def split: if_splits)
qed

declare clearCacheAll.simps [simp del]

section \<open>A simple executable buffer\<close>

text \<open>
  Modelled from the spec: \<^verbatim>\<open>ExecBlock\<close> is an external collaborator whose code is
  not in the sources at hand.  To run the manager on concrete inputs, this is a plain
  instance of its capability set: a buffer of \<open>cap\<close> host bytes in which a patch takes as
  many host bytes as its guest instruction has.  \<^verbatim>\<open>writeSequence\<close> writes the longest
  prefix of the patches that fits and reports \<^verbatim>\<open>EXEC_BLOCK_FULL\<close> (here \<open>0xFFFF\<close>),
  leaving the buffer unchanged, when not even one patch fits or the 16-bit identifiers
  are used up; \<^verbatim>\<open>splitSequence\<close> mints a new sequence over the suffix of the
  enclosing one.  The ratio arithmetic is exact integer arithmetic.
\<close>

record SimpleBlock =
  sb_insts :: "rword list"
  sb_seqs :: "(nat \<times> nat) list"
  sb_used :: nat
  sb_selected :: "16 word option"

definition simpleNew :: SimpleBlock where
  "simpleNew = \<lparr> sb_insts = [], sb_seqs = [], sb_used = 0, sb_selected = None \<rparr>"

fun simpleFit :: "nat \<Rightarrow> Patch list \<Rightarrow> nat" where
  "simpleFit room [] = 0"
| "simpleFit room (p # ps) =
     (if unat (instSize (metadata p)) \<le> room
      then Suc (simpleFit (room - unat (instSize (metadata p))) ps) else 0)"

definition simpleBytes :: "Patch list \<Rightarrow> nat" where
  "simpleBytes ps = sum_list (map (\<lambda>p. unat (instSize (metadata p))) ps)"

definition simpleWrite ::
  "nat \<Rightarrow> SimpleBlock \<Rightarrow> Patch list \<Rightarrow> SeqType \<Rightarrow> SeqWriteResult \<times> SimpleBlock" where
  "simpleWrite cap b ps ty =
     (let n = simpleFit (cap - sb_used b) ps
      in if n = 0 \<or> 65535 \<le> length (sb_insts b) + n \<or> 65535 \<le> length (sb_seqs b)
         then (\<lparr> res_seqID = 0xFFFF, patchWritten = 0, bytesWritten = 0 \<rparr>, b)
         else (\<lparr> res_seqID = word_of_nat (length (sb_seqs b)), patchWritten = n,
                  bytesWritten = word_of_nat (simpleBytes (take n ps)) \<rparr>,
               b\<lparr> sb_insts := sb_insts b @ map (\<lambda>p. address (metadata p)) (take n ps),
                  sb_seqs := sb_seqs b @ [(length (sb_insts b), length (sb_insts b) + n - 1)],
                  sb_used := sb_used b + simpleBytes (take n ps) \<rparr>))"

definition simpleSeqStart :: "SimpleBlock \<Rightarrow> 16 word \<Rightarrow> 16 word" where
  "simpleSeqStart b sid =
     (if unat sid < length (sb_seqs b) then word_of_nat (fst (sb_seqs b ! unat sid)) else 0)"

definition simpleSeqEnd :: "SimpleBlock \<Rightarrow> 16 word \<Rightarrow> 16 word" where
  "simpleSeqEnd b sid =
     (if unat sid < length (sb_seqs b) then word_of_nat (snd (sb_seqs b ! unat sid)) else 0)"

fun simpleSeqIndex :: "(nat \<times> nat) list \<Rightarrow> nat \<Rightarrow> nat \<Rightarrow> nat" where
  "simpleSeqIndex [] i k = k"
| "simpleSeqIndex (se # ses) i k =
     (if fst se \<le> i \<and> i \<le> snd se then k else simpleSeqIndex ses i (Suc k))"

definition simpleSeqID :: "SimpleBlock \<Rightarrow> 16 word \<Rightarrow> 16 word" where
  "simpleSeqID b i = word_of_nat (simpleSeqIndex (sb_seqs b) (unat i) 0)"

definition simpleSplit :: "SimpleBlock \<Rightarrow> 16 word \<Rightarrow> 16 word \<times> SimpleBlock" where
  "simpleSplit b i =
     (word_of_nat (length (sb_seqs b)),
      b\<lparr> sb_seqs := sb_seqs b @ [(unat i, unat (simpleSeqEnd b (simpleSeqID b i)))] \<rparr>)"

definition simpleInstAddress :: "SimpleBlock \<Rightarrow> 16 word \<Rightarrow> rword" where
  "simpleInstAddress b i = (if unat i < length (sb_insts b) then sb_insts b ! unat i else 0)"

definition simpleEnv :: "nat \<Rightarrow> SimpleBlock Env" where
  "simpleEnv cap = \<lparr> EXEC_BLOCK_FULL = 0xFFFF, newExecBlock = simpleNew,
     writeSequence = simpleWrite cap, splitSequence = simpleSplit,
     selectSeq = (\<lambda>b sid. b\<lparr> sb_selected := Some sid \<rparr>),
     getSeqID = simpleSeqID, getSeqStart = simpleSeqStart, getSeqEnd = simpleSeqEnd,
     getInstAddress = simpleInstAddress,
     getEpilogueOffset = (\<lambda>b. word_of_nat (cap - sb_used b)),
     floatScale = (\<lambda>x tn td. word_of_nat (x * tn div td)),
     buildAnalysis = (\<lambda>m ty. \<lparr> analysisType = ty, analysisOf = m \<rparr>) \<rparr>"

definition mkPatch :: "rword \<Rightarrow> rword \<Rightarrow> Patch" where
  "mkPatch a n = \<lparr> metadata = \<lparr> address = a, instSize = n \<rparr> \<rparr>"

section \<open>Statements taken from the specification\<close>



text \<open>
  Following the spec's words for the ordering invariant: ``\<^verbatim>\<open>regions\<close> is sorted by
  \<^verbatim>\<open>covered.start\<close>; for any \<^verbatim>\<open>i<j\<close>, \<^verbatim>\<open>regions[i].covered.end <= regions[j].covered.start\<close>.''
\<close>

definition sortedByStart :: "ExecRegion list \<Rightarrow> bool" where
  "sortedByStart rs = sorted_wrt (\<lambda>r q. rstart (covered r) \<le> rstart (covered q)) rs"

definition regionsOrdered :: "ExecRegion list \<Rightarrow> bool" where
  "regionsOrdered rs =
     sorted_wrt (\<lambda>r q. rstart (covered r) \<le> rstart (covered q)
                     \<and> rend (covered r) \<le> rstart (covered q)) rs"

text \<open>
  Following the spec's words for \<^verbatim>\<open>searchRegion\<close>: the index whose \<^verbatim>\<open>covered\<close>
  contains the address or, failing that, the index of the last region whose
  \<^verbatim>\<open>covered.start\<close> is at most the address; 0 if the address precedes all regions or
  there is no region.  The index is past the end only if there is no region.
\<close>

definition searchSpec :: "ExecRegion list \<Rightarrow> rword \<Rightarrow> nat \<Rightarrow> bool" where
  "searchSpec rs a i =
     (if rs = [] then i = 0
      else i < length rs \<and>
        (if \<exists>r \<in> set rs. contains (covered r) a then contains (covered (rs ! i)) a
         else if \<exists>r \<in> set rs. rstart (covered r) \<le> a
           then rstart (covered (rs ! i)) \<le> a
                  \<and> (\<forall>j \<in> set [0 ..< length rs]. rstart (covered (rs ! j)) \<le> a \<longrightarrow> j \<le> i)
           else i = 0))"

text \<open>
  Following the spec's words for the extension cost:
  \<^verbatim>\<open>max(0, codeRange.end - covered.end) + max(0, covered.start - codeRange.start)\<close>,
  over the integers.
\<close>

definition specCost :: "Range \<Rightarrow> Range \<Rightarrow> nat" where
  "specCost cov cr =
     nat (max 0 (uint (rend cr) - uint (rend cov)))
       + nat (max 0 (uint (rstart cov) - uint (rstart cr)))"

text \<open>
  Following the spec's words for the policy of \<^verbatim>\<open>findRegion\<close>: among the candidates, a
  region that contains the range is used; otherwise the candidate with the smallest
  cost among those whose cost passes the gate \<^verbatim>\<open>cost * E < available\<close> (the product
  being the parameter \<open>floatScale\<close>); otherwise there is none and a new region is
  created.  \<open>leastCost\<close> takes the first candidate of least cost.
\<close>

fun leastCost :: "(nat \<Rightarrow> nat) \<Rightarrow> nat list \<Rightarrow> nat option" where
  "leastCost cost [] = None"
| "leastCost cost (i # cands) =
     (case leastCost cost cands of
        None \<Rightarrow> Some i
      | Some j \<Rightarrow> if cost i \<le> cost j then Some i else Some j)"

definition specGate :: "'b Env \<Rightarrow> Range \<Rightarrow> 'b ExecBlockManager \<Rightarrow> nat \<Rightarrow> bool" where
  "specGate env cr s i =
     (unat (floatScale env (specCost (covered (regions s ! i)) cr)
              (total_translation_size s) (total_translated_size s))
        < available (regions s ! i))"

datatype choice = UseRegion nat | ExtendRegion nat | NewRegion

definition specChoice :: "'b Env \<Rightarrow> Range \<Rightarrow> 'b ExecBlockManager \<Rightarrow> nat list \<Rightarrow> choice" where
  "specChoice env cr s cands =
     (case find (\<lambda>i. containsRange (covered (regions s ! i)) cr) cands of
        Some i \<Rightarrow> UseRegion i
      | None \<Rightarrow>
         (case leastCost (\<lambda>i. specCost (covered (regions s ! i)) cr)
                 (filter (specGate env cr s) cands) of
            Some i \<Rightarrow> ExtendRegion i
          | None \<Rightarrow> NewRegion))"

section \<open>Scenario data\<close>


text \<open>
  Three basic blocks of three 4-byte instructions each, and the states the manager
  reaches with them over the simple buffer: \<open>stateA\<close> after \<open>blockA\<close> with buffers of
  12 bytes (the buffer of the region is then full), \<open>stateAB\<close> after \<open>blockA\<close> and
  \<open>blockB\<close>, \<open>stateOverlap\<close> after \<open>blockA\<close> and \<open>blockMid\<close>, and \<open>stateRoomy\<close>
  after \<open>blockA\<close> with buffers of 100 bytes, and \<open>stateTail\<close> after \<open>blockA\<close> and
  \<open>blockTail\<close> with buffers of 12 bytes.
\<close>

definition someFuel :: nat where
  "someFuel = Suc (Suc (Suc (Suc (Suc 0))))"

definition blockA :: "Patch list" where
  "blockA = [mkPatch 0x1000 4, mkPatch 0x1004 4, mkPatch 0x1008 4]"

definition blockB :: "Patch list" where
  "blockB = [mkPatch 0x9000 4, mkPatch 0x9004 4, mkPatch 0x9008 4]"


definition regionOf ::
  "rword \<Rightarrow> rword \<Rightarrow> nat \<Rightarrow> nat \<Rightarrow> rword \<Rightarrow> rword \<Rightarrow> rword \<Rightarrow> ExecRegion" where
  "regionOf lo hi avail p a0 a1 a2 =
     \<lparr> covered = \<lparr> rstart = lo, rend = hi \<rparr>, translated = 12, available = avail,
       blocks = [p],
       sequenceCache = [a0 \<mapsto> \<lparr> execBlock = Some p, seqID = 0, bbIdx = 0 \<rparr>],
       instCache = [a0 \<mapsto> \<lparr> blockIdx = 0, instID = 0 \<rparr>,
                    a1 \<mapsto> \<lparr> blockIdx = 0, instID = 1 \<rparr>,
                    a2 \<mapsto> \<lparr> blockIdx = 0, instID = 2 \<rparr>],
       analysisCache = Map.empty,
       bbRegistry = [\<lparr> bbstart = lo, bbend = hi \<rparr>] \<rparr>"

definition bufferOf :: "rword \<Rightarrow> rword \<Rightarrow> rword \<Rightarrow> SimpleBlock" where
  "bufferOf a0 a1 a2 =
     \<lparr> sb_insts = [a0, a1, a2], sb_seqs = [(0, 2)], sb_used = 12, sb_selected = None \<rparr>"

definition stateA :: "SimpleBlock ExecBlockManager" where
  "stateA = \<lparr> regions = [regionOf 0x1000 0x100C 0 0 0x1000 0x1004 0x1008],
     total_translated_size = 13, total_translation_size = 13,
     searchCache = \<lparr> sc_address = 0x1000, sc_regionIdx = 0 \<rparr>,
     flushList = [], globalAnalysisCache = Map.empty,
     heap = [0 \<mapsto> bufferOf 0x1000 0x1004 0x1008], heapNext = 1 \<rparr>"

definition stateRoomy :: "SimpleBlock ExecBlockManager" where
  "stateRoomy = \<lparr> regions = [regionOf 0x1000 0x100C 88 0 0x1000 0x1004 0x1008],
     total_translated_size = 13, total_translation_size = 13,
     searchCache = \<lparr> sc_address = 0x1000, sc_regionIdx = 0 \<rparr>,
     flushList = [], globalAnalysisCache = Map.empty,
     heap = [0 \<mapsto> bufferOf 0x1000 0x1004 0x1008], heapNext = 1 \<rparr>"

definition stateAB :: "SimpleBlock ExecBlockManager" where
  "stateAB = \<lparr> regions = [regionOf 0x1000 0x100C 0 0 0x1000 0x1004 0x1008,
                           regionOf 0x9000 0x900C 0 1 0x9000 0x9004 0x9008],
     total_translated_size = 25, total_translation_size = 25,
     searchCache = \<lparr> sc_address = 0x9000, sc_regionIdx = 1 \<rparr>,
     flushList = [], globalAnalysisCache = Map.empty,
     heap = [0 \<mapsto> bufferOf 0x1000 0x1004 0x1008, 1 \<mapsto> bufferOf 0x9000 0x9004 0x9008],
     heapNext = 2 \<rparr>"


definition blockTail :: "Patch list" where
  "blockTail = [mkPatch 0x1008 4, mkPatch 0x100C 4, mkPatch 0x1010 4]"

definition stateTail :: "SimpleBlock ExecBlockManager" where
  "stateTail = \<lparr> regions = [regionOf 0x1000 0x100C 0 0 0x1000 0x1004 0x1008,
                             regionOf 0x1008 0x1014 0 1 0x1008 0x100C 0x1010],
     total_translated_size = 25, total_translation_size = 25,
     searchCache = \<lparr> sc_address = 0x1008, sc_regionIdx = 1 \<rparr>,
     flushList = [], globalAnalysisCache = Map.empty,
     heap = [0 \<mapsto> bufferOf 0x1000 0x1004 0x1008, 1 \<mapsto> bufferOf 0x1008 0x100C 0x1010],
     heapNext = 2 \<rparr>"

section \<open>Auxiliary predicates\<close>

text \<open>
  What the binary search establishes about its result, and the fields of the manager
  that erasing regions leaves alone.
\<close>

definition searchPost :: "ExecRegion list \<Rightarrow> rword \<Rightarrow> nat \<Rightarrow> bool" where
  "searchPost rs a i = (i < length rs \<and>
     (contains (covered (rs ! i)) a \<or>
      ((i = 0 \<or> (rstart (covered (rs ! i)) \<le> a \<and> rend (covered (rs ! i)) \<le> a))
       \<and> (\<forall>j. i < j \<longrightarrow> j < length rs \<longrightarrow> a < rstart (covered (rs ! j))))))"


text \<open>
  What the manager needs from \<^verbatim>\<open>writeSequence\<close>: a successful write of a non-empty
  list of patches reports at least one and at most as many patches as were offered, and
  the instruction identifiers of the new sequence, as \<^verbatim>\<open>getSeqStart\<close> and
  \<^verbatim>\<open>getSeqEnd\<close> give them afterwards, are as many as the patches written and stay below
  the largest 16-bit value.
\<close>

definition writeContract :: "'b Env \<Rightarrow> bool" where
  "writeContract env =
     (\<forall>b ps ty. ps \<noteq> [] \<longrightarrow>
        res_seqID (fst (writeSequence env b ps ty)) \<noteq> EXEC_BLOCK_FULL env \<longrightarrow>
          1 \<le> patchWritten (fst (writeSequence env b ps ty))
          \<and> patchWritten (fst (writeSequence env b ps ty)) \<le> length ps
          \<and> unat (getSeqStart env (snd (writeSequence env b ps ty))
                     (res_seqID (fst (writeSequence env b ps ty))))
              + patchWritten (fst (writeSequence env b ps ty))
             = unat (getSeqEnd env (snd (writeSequence env b ps ty))
                       (res_seqID (fst (writeSequence env b ps ty)))) + 1
          \<and> unat (getSeqEnd env (snd (writeSequence env b ps ty))
                     (res_seqID (fst (writeSequence env b ps ty)))) < 65535)"

text \<open>
  The region that \<^verbatim>\<open>writeBasicBlock\<close> chooses for a block and the \<^verbatim>\<open>patchEnd\<close> that
  its truncation loop computes there.
\<close>

definition chosenRegion :: "'b Env \<Rightarrow> Patch list \<Rightarrow> 'b ExecBlockManager \<Rightarrow> nat" where
  "chosenRegion env bb s =
     (case findRegion env (codeRangeOf bb) s of Inl e \<Rightarrow> 0 | Inr (r, s1) \<Rightarrow> r)"

definition computedPatchEnd :: "'b Env \<Rightarrow> Patch list \<Rightarrow> 'b ExecBlockManager \<Rightarrow> nat" where
  "computedPatchEnd env bb s =
     (case findRegion env (codeRangeOf bb) s of
        Inl e \<Rightarrow> 0
      | Inr (r, s1) \<Rightarrow> truncation (sequenceCache (regions s1 ! r)) bb)"

text \<open>What the write loops leave alone or only extend in region \<open>r\<close>.\<close>

definition writeFrame :: "nat \<Rightarrow> 'b ExecBlockManager \<Rightarrow> 'b ExecBlockManager \<Rightarrow> bool" where
  "writeFrame r s s' =
     (searchCache s' = searchCache s \<and> flushList s' = flushList s
      \<and> map covered (regions s') = map covered (regions s)
      \<and> dom (sequenceCache (regions s ! r)) \<subseteq> dom (sequenceCache (regions s' ! r))
      \<and> dom (instCache (regions s ! r)) \<subseteq> dom (instCache (regions s' ! r)))"

text \<open>
  The search-cache slot is usable: its index is 0, or it is the index of a region that
  starts at or below the cached address.
\<close>

definition cacheSlotOK :: "'b ExecBlockManager \<Rightarrow> bool" where
  "cacheSlotOK s =
     (sc_regionIdx (searchCache s) = 0
      \<or> (sc_regionIdx (searchCache s) < length (regions s)
          \<and> rstart (covered (regions s ! sc_regionIdx (searchCache s)))
               \<le> sc_address (searchCache s)))"

section \<open>Reachable states\<close>

text \<open>
  Following the spec's words for what the patcher hands in: ``a non-empty ordered patch
  list with strictly monotone, non-overlapping \<^verbatim>\<open>[address, address+instSize)\<close>
  intervals'' (each interval is non-empty and does not wrap around the address space).
\<close>

definition properBlock :: "Patch list \<Rightarrow> bool" where
  "properBlock bb =
     (bb \<noteq> []
      \<and> list_all (\<lambda>p. address (metadata p) < address (metadata p) + instSize (metadata p)) bb
      \<and> sorted_wrt (\<lambda>p q. address (metadata p) + instSize (metadata p) \<le> address (metadata q)) bb)"

text \<open>
  The states that the public operations reach from a fresh manager, with the patcher
  keeping its contract.
\<close>

inductive reachable :: "'b Env \<Rightarrow> 'b ExecBlockManager \<Rightarrow> bool" for env :: "'b Env" where
  by_fresh: "reachable env newManager"
| by_write: "reachable env s \<Longrightarrow> properBlock bb \<Longrightarrow> writeBasicBlock env fuel bb s = Inr s'
            \<Longrightarrow> reachable env s'"
| by_seqLoc: "reachable env s \<Longrightarrow> getSeqLoc env a s = Inr (l, s') \<Longrightarrow> reachable env s'"
| by_execBlock: "reachable env s \<Longrightarrow> getExecBlock env a s = Inr (p, s') \<Longrightarrow> reachable env s'"
| by_bbInfo: "reachable env s \<Longrightarrow> getBBInfo a s = Inr (b, s') \<Longrightarrow> reachable env s'"
| by_analyze: "reachable env s \<Longrightarrow> analyzeInstMetadata env md ty s = Inr (an, s')
            \<Longrightarrow> reachable env s'"
| by_clearRange: "reachable env s \<Longrightarrow> reachable env (clearCacheRange rg s)"
| by_clearSet: "reachable env s \<Longrightarrow> reachable env (clearCacheSet rgs s)"
| by_clearAll: "reachable env s \<Longrightarrow> clearCacheAll s = Inr s' \<Longrightarrow> reachable env s'"
| by_flush: "reachable env s \<Longrightarrow> flushCommit s = Inr s' \<Longrightarrow> reachable env s'"

text \<open>
  What holds of the covered ranges and of the search-cache slot in every reachable
  state: no covered range is empty; while there are regions the slot is usable; and
  while the regions are ordered the slot holds what a search would find.
\<close>

definition properRegions :: "ExecRegion list \<Rightarrow> bool" where
  "properRegions rs = list_all (\<lambda>r. rstart (covered r) < rend (covered r)) rs"

definition cacheInv :: "'b ExecBlockManager \<Rightarrow> bool" where
  "cacheInv s =
     (properRegions (regions s)
      \<and> (regions s = [] \<or> cacheSlotOK s)
      \<and> (regions s = [] \<or> \<not> regionsOrdered (regions s)
          \<or> searchSpec (regions s) (sc_address (searchCache s)) (sc_regionIdx (searchCache s))))"

section \<open>updateRegionStat\<close>



section \<open>The scenario states are reached\<close>

lemmas run_defs = writeBasicBlock_def findRegion_def searchRegion_def newManager_def simpleEnv_def
  codeRangeOf_def mkPatch_def candidates_def setSearchCache_def newRegion_def registerBB_def
  pushNewBlock_def recordSequence_def updateRegionStat_def simpleWrite_def simpleNew_def
  simpleBytes_def simpleSeqStart_def simpleSeqEnd_def rsize_def Let_def extensionCost_def
  containsRange_def extendCovered_def someFuel_def regionOf_def bufferOf_def searchLoop.simps
  findInsert.simps

lemma run_blockA: "writeBasicBlock (simpleEnv 12) someFuel blockA newManager = Inr stateA"
  by (simp add: blockA_def stateA_def run_defs) (simp add: numeral_2_eq_2)

lemma run_blockA_roomy: "writeBasicBlock (simpleEnv 100) someFuel blockA newManager = Inr stateRoomy"
  by (simp add: blockA_def stateRoomy_def run_defs) (simp add: numeral_2_eq_2)

lemma run_blockB: "writeBasicBlock (simpleEnv 12) someFuel blockB stateA = Inr stateAB"
  by (simp add: blockB_def stateA_def stateAB_def run_defs) (simp add: numeral_2_eq_2)


section \<open>The binary search\<close>

lemma regionsOrdered_nth:
  "regionsOrdered rs \<Longrightarrow> i < j \<Longrightarrow> j < length rs \<Longrightarrow>
     rstart (covered (rs ! i)) \<le> rstart (covered (rs ! j)) \<and> rend (covered (rs ! i)) \<le> rstart (covered (rs ! j))"
  by (simp add: regionsOrdered_def sorted_wrt_iff_nth_less)

lemma searchLoop_post:
  assumes "regionsOrdered rs" "low < high" "high \<le> length rs"
    and "low = 0 \<or> (rstart (covered (rs ! low)) \<le> a \<and> rend (covered (rs ! low)) \<le> a)"
    and "high = length rs \<or> a < rstart (covered (rs ! high))"
  shows "\<exists>i. searchLoop rs a low high = Some (Inr i) \<and> searchPost rs a i"
  using assms
proof (induction "high - low" arbitrary: low high rule: less_induct)
  case less
  show ?case
  proof (cases "low + 1 = high")
    case True
    have "\<forall>j. low < j \<longrightarrow> j < length rs \<longrightarrow> a < rstart (covered (rs ! j))"
    proof (intro allI impI)
      fix j assume j: "low < j" "j < length rs"
      then have hl: "high < length rs" "high \<le> j" using True by auto
      with less.prems(5) have ah: "a < rstart (covered (rs ! high))" by auto
      show "a < rstart (covered (rs ! j))"
      proof (cases "high = j")
        case True with ah show ?thesis by simp
      next
        case False
        with hl have "high < j" by simp
        from regionsOrdered_nth [OF less.prems(1) this j(2)] ah show ?thesis by auto
      qed
    qed
    with less.prems True have "searchPost rs a low" by (auto simp: searchPost_def)
    moreover have "searchLoop rs a low high = Some (Inr low)"
      using True by (subst searchLoop.simps) simp
    ultimately show ?thesis by blast
  next
    case False
    define idx where "idx = (low + high) div 2"
    have idx: "low < idx" "idx < high" using False less.prems(2) by (auto simp: idx_def)
    then have il: "idx < length rs" using less.prems(3) by simp
    consider (lt) "a < rstart (covered (rs ! idx))"
      | (ge) "\<not> a < rstart (covered (rs ! idx))" "rend (covered (rs ! idx)) \<le> a"
      | (hit) "\<not> a < rstart (covered (rs ! idx))" "\<not> rend (covered (rs ! idx)) \<le> a" by blast
    then show ?thesis
    proof cases
      case lt
      have "searchLoop rs a low high = searchLoop rs a low idx"
        using False il lt by (subst searchLoop.simps) (simp add: idx_def)
      moreover have "\<exists>i. searchLoop rs a low idx = Some (Inr i) \<and> searchPost rs a i"
        using idx il lt less.prems by (intro less.hyps) auto
      ultimately show ?thesis by simp
    next
      case ge
      have "searchLoop rs a low high = searchLoop rs a idx high"
        using False il ge by (subst searchLoop.simps) (simp add: idx_def)
      moreover have "\<exists>i. searchLoop rs a idx high = Some (Inr i) \<and> searchPost rs a i"
        using idx il ge less.prems by (intro less.hyps) auto
      ultimately show ?thesis by simp
    next
      case hit
      have "searchLoop rs a low high = Some (Inr idx)"
        using False il hit by (subst searchLoop.simps) (simp add: idx_def)
      moreover have "searchPost rs a idx" using hit il by (auto simp: searchPost_def contains_def)
      ultimately show ?thesis by blast
    qed
  qed
qed

lemma searchPost_spec:
  assumes "regionsOrdered rs" "searchPost rs a i"
  shows "searchSpec rs a i"
proof -
  from assms(2) have il: "i < length rs" by (simp add: searchPost_def)
  then have ne: "rs \<noteq> []" by auto
  show ?thesis
  proof (cases "contains (covered (rs ! i)) a")
    case True
    then show ?thesis using il ne by (auto simp: searchSpec_def)
  next
    case False
    with assms(2) have lo: "i = 0 \<or> (rstart (covered (rs ! i)) \<le> a \<and> rend (covered (rs ! i)) \<le> a)"
      and hi: "\<And>j. i < j \<Longrightarrow> j < length rs \<Longrightarrow> a < rstart (covered (rs ! j))"
      by (auto simp: searchPost_def)
    have none: "\<not> contains (covered (rs ! j)) a" if "j < length rs" for j
    proof (cases j i rule: linorder_cases)
      case less
      then have "i \<noteq> 0" by simp
      with lo have "rstart (covered (rs ! i)) \<le> a" by simp
      moreover from regionsOrdered_nth [OF assms(1) less il]
      have "rend (covered (rs ! j)) \<le> rstart (covered (rs ! i))" by simp
      ultimately show ?thesis by (auto simp: contains_def)
    next
      case equal with False show ?thesis by simp
    next
      case greater
      from hi [OF greater that] show ?thesis by (auto simp: contains_def)
    qed
    then have nex: "\<not> (\<exists>r \<in> set rs. contains (covered r) a)"
      by (auto simp: in_set_conv_nth)
    have last: "j \<le> i" if "j < length rs" "rstart (covered (rs ! j)) \<le> a" for j
      using hi [of j] that by (cases "i < j") auto
    show ?thesis
    proof (cases "\<exists>r \<in> set rs. rstart (covered r) \<le> a")
      case True
      then obtain j where j: "j < length rs" "rstart (covered (rs ! j)) \<le> a"
        by (auto simp: in_set_conv_nth)
      from last [OF j] lo j have "rstart (covered (rs ! i)) \<le> a" by (cases "i = 0") auto
      with True nex il ne last show ?thesis by (auto simp: searchSpec_def)
    next
      case False
      have "i = 0"
      proof (rule ccontr)
        assume "i \<noteq> 0"
        with lo have "rstart (covered (rs ! i)) \<le> a" by simp
        moreover have "rs ! i \<in> set rs" using il by simp
        ultimately show False using False by blast
      qed
      with False nex il ne show ?thesis by (auto simp: searchSpec_def)
    qed
  qed
qed

lemma searchLoop_spec:
  assumes "regionsOrdered rs" "rs \<noteq> []"
  shows "\<exists>i. searchLoop rs a 0 (length rs) = Some (Inr i) \<and> searchSpec rs a i"
proof -
  from searchLoop_post [of rs 0 "length rs" a] assms
  obtain i where "searchLoop rs a 0 (length rs) = Some (Inr i)" "searchPost rs a i" by auto
  with searchPost_spec [OF assms(1)] show ?thesis by blast
qed

text \<open>The search always returns an index inside the array.\<close>
lemma searchLoop_total:
  assumes "low < high" "high \<le> length rs"
  shows "\<exists>i. searchLoop rs a low high = Some (Inr i) \<and> low \<le> i \<and> i < high
     \<and> (i = low \<or> \<not> a < rstart (covered (rs ! i)))"
  using assms
proof (induction "high - low" arbitrary: low high rule: less_induct)
  case less
  show ?case
  proof (cases "low + 1 = high")
    case True
    then have "searchLoop rs a low high = Some (Inr low)" by (subst searchLoop.simps) simp
    with less.prems show ?thesis by simp
  next
    case False
    define idx where "idx = (low + high) div 2"
    have idx: "low < idx" "idx < high" using False less.prems(1) by (auto simp: idx_def)
    then have il: "idx < length rs" using less.prems(2) by simp
    consider (lt) "a < rstart (covered (rs ! idx))"
      | (ge) "\<not> a < rstart (covered (rs ! idx))" "rend (covered (rs ! idx)) \<le> a"
      | (hit) "\<not> a < rstart (covered (rs ! idx))" "\<not> rend (covered (rs ! idx)) \<le> a" by blast
    then show ?thesis
    proof cases
      case lt
      have "searchLoop rs a low high = searchLoop rs a low idx"
        using False il lt by (subst searchLoop.simps) (simp add: idx_def)
      moreover have "\<exists>i. searchLoop rs a low idx = Some (Inr i) \<and> low \<le> i \<and> i < idx
           \<and> (i = low \<or> \<not> a < rstart (covered (rs ! i)))"
        using idx il by (intro less.hyps) auto
      ultimately show ?thesis using idx by auto
    next
      case ge
      have "searchLoop rs a low high = searchLoop rs a idx high"
        using False il ge by (subst searchLoop.simps) (simp add: idx_def)
      moreover have "\<exists>i. searchLoop rs a idx high = Some (Inr i) \<and> idx \<le> i \<and> i < high
          \<and> (i = idx \<or> \<not> a < rstart (covered (rs ! i)))"
        using idx il less.prems by (intro less.hyps) auto
      ultimately show ?thesis using idx ge by auto
    next
      case hit
      have "searchLoop rs a low high = Some (Inr idx)"
        using False il hit by (subst searchLoop.simps) (simp add: idx_def)
      then show ?thesis using idx hit by auto
    qed
  qed
qed

section \<open>Invalidation: clearCache and flushCommit\<close>











section \<open>The one-slot search cache\<close>

lemmas find_defs = findRegion_def searchRegion_def simpleEnv_def
  codeRangeOf_def mkPatch_def candidates_def setSearchCache_def newRegion_def
  Let_def extensionCost_def containsRange_def extendCovered_def regionOf_def bufferOf_def
  searchLoop.simps findInsert.simps

lemma searchRegion_result:
  "\<exists>i. searchRegion a s = Inr (i, s) \<or>
         searchRegion a s = Inr (i, s\<lparr> searchCache := \<lparr> sc_address = a, sc_regionIdx = i \<rparr> \<rparr>)
           \<and> i < length (regions s)"
proof (cases "length (regions s) = 0 \<or> sc_address (searchCache s) = a")
  case True
  then show ?thesis by (auto simp: searchRegion_def)
next
  case False
  from searchLoop_total [of 0 "length (regions s)" "regions s" a] False
  obtain i where "searchLoop (regions s) a 0 (length (regions s)) = Some (Inr i)"
    "i < length (regions s)" by auto
  with False show ?thesis by (auto simp: searchRegion_def)
qed

lemma searchRegion_Inr:
  obtains i s' where "searchRegion a s = Inr (i, s')" "regions s' = regions s"
    "s' = s \<or> s' = s\<lparr> searchCache := \<lparr> sc_address = a, sc_regionIdx = i \<rparr> \<rparr>"
  using searchRegion_result [of a s] by auto

lemma findRegion_cache:
  "findRegion env cr s = Inr (i, s') \<Longrightarrow>
     searchCache s' = \<lparr> sc_address = rstart cr, sc_regionIdx = i \<rparr>"
  by (auto simp: findRegion_def setSearchCache_def Let_def
           split: sum.splits prod.splits if_splits)

lemma clearCacheAll_result:
  "\<exists>s'. clearCacheAll s = Inr s' \<and> regions s' = [] \<and> searchCache s' = searchCache s
      \<and> flushList s' = flushList s"
proof (induction s rule: clearCacheAll.induct)
  case (1 s)
  show ?case
  proof (cases "0 < length (regions s)")
    case False
    then show ?thesis by (subst clearCacheAll.simps) simp
  next
    case True
    then have "length (regions s) - 1 < length (regions s)" by simp
    then obtain s1 where e: "eraseRegion (length (regions s) - 1) s = Inr s1"
      and c: "searchCache s1 = searchCache s" "flushList s1 = flushList s"
      unfolding eraseRegion_def by (simp add: not_le [symmetric])
    from "1.IH" [OF True e] c e True show ?thesis
      by (subst clearCacheAll.simps) auto
  qed
qed

lemma fold_clearCacheRange:
  "regions (fold clearCacheRange rgs s) = regions s
     \<and> searchCache (fold clearCacheRange rgs s) = searchCache s"
  by (induction rgs arbitrary: s) (auto simp: clearCacheRange_def)

section \<open>findRegion and the 32-bit cost\<close>

text \<open>
  C5.  The cost of the code is the cost of the spec reduced modulo \<open>2 ^ 32\<close>.  In
  \<open>stateRoomy\<close> (one region \<^verbatim>\<open>[0x1000, 0x100C)\<close> with 88 bytes available and an
  expansion ratio of \<open>13 / 13\<close>) the range \<^verbatim>\<open>[0x100001000, 0x10000100C)\<close> has the cost
  \<open>2 ^ 32\<close>, far above the budget, but the code computes the cost 0 and extends the
  region over four gigabytes instead of creating a new one.  On the inputs where every
  candidate's cost is below \<open>2 ^ 32 - 1\<close> the code follows the policy of the
  specification (\<open>findRegion_follows_policy\<close>, in the last section).
\<close>

theorem findRegion_cost_truncated:
  "specCost (covered (regions stateRoomy ! 0)) \<lparr> rstart = 0x100001000, rend = 0x10000100C \<rparr>
       = 2 ^ 32
   \<and> available (regions stateRoomy ! 0) = 88
   \<and> total_translation_size stateRoomy = total_translated_size stateRoomy
   \<and> extensionCost (covered (regions stateRoomy ! 0))
         \<lparr> rstart = 0x100001000, rend = 0x10000100C \<rparr> = 0
   \<and> (case findRegion (simpleEnv 100) \<lparr> rstart = 0x100001000, rend = 0x10000100C \<rparr> stateRoomy of
         Inl e \<Rightarrow> False
       | Inr (i, s') \<Rightarrow>
           i = 0 \<and> map covered (regions s') = [\<lparr> rstart = 0x1000, rend = 0x10000100C \<rparr>])"
  by (simp add: find_defs stateRoomy_def specCost_def)

section \<open>What findRegion returns\<close>

lemma scanCandidates_Inl:
  "scanCandidates env cr s cands bc br = Inl i \<Longrightarrow>
     i \<in> set cands \<and> containsRange (covered (regions s ! i)) cr"
  by (induction cands arbitrary: bc br) (auto split: if_splits)

lemma scanCandidates_Inr:
  "scanCandidates env cr s cands bc br = Inr (bc', br') \<Longrightarrow> br' = br \<or> br' \<in> set cands"
  by (induction cands arbitrary: bc br) (auto split: if_splits)

lemma containsRange_extendCovered: "containsRange (extendCovered cov cr) cr"
  by (auto simp: containsRange_def extendCovered_def Let_def)

lemma findInsert_ge: "ins \<le> findInsert rs a ins"
proof (induction rs a ins rule: findInsert.induct)
  case (1 rs a ins)
  then show ?case by (subst findInsert.simps) auto
qed

lemma findRegion_Inr:
  assumes "findRegion env cr s = Inr (r, s')"
  shows "r < length (regions s')"
    and "containsRange (covered (regions s' ! r)) cr"
    and "searchCache s' = \<lparr> sc_address = rstart cr, sc_regionIdx = r \<rparr>"
    and "flushList s' = flushList s"
proof -
  obtain low s1 where sr: "searchRegion (rstart cr) s = Inr (low, s1)"
    and rs: "regions s1 = regions s"
    and s1: "s1 = s \<or> s1 = s\<lparr> searchCache := \<lparr> sc_address = rstart cr, sc_regionIdx = low \<rparr> \<rparr>"
    by (rule searchRegion_Inr)
  have fl: "flushList s1 = flushList s" using s1 by auto
  let ?n = "length (regions s1)"
  have cands: "\<And>i. i \<in> set (candidates low ?n) \<Longrightarrow> i < ?n" by (auto simp: candidates_def)
  show "searchCache s' = \<lparr> sc_address = rstart cr, sc_regionIdx = r \<rparr>"
    using assms by (rule findRegion_cache)
  consider (hit) i where "scanCandidates env cr s1 (candidates low ?n) 0xFFFFFFFF ?n = Inl i"
    | (best) bc br where "scanCandidates env cr s1 (candidates low ?n) 0xFFFFFFFF ?n = Inr (bc, br)"
    by (cases "scanCandidates env cr s1 (candidates low ?n) 0xFFFFFFFF ?n") auto
  then have "r < length (regions s') \<and> containsRange (covered (regions s' ! r)) cr
      \<and> flushList s' = flushList s"
  proof cases
    case hit
    from scanCandidates_Inl [OF hit] cands
    have "i < ?n" "containsRange (covered (regions s1 ! i)) cr" by auto
    with assms sr hit fl show ?thesis by (auto simp: findRegion_def setSearchCache_def)
  next
    case best
    show ?thesis
    proof (cases "br = ?n")
      case False
      with scanCandidates_Inr [OF best] cands have "br < ?n" by auto
      with assms sr best False fl show ?thesis
        by (auto simp: findRegion_def setSearchCache_def containsRange_extendCovered)
    next
      case True
      let ?ins = "findInsert (regions s1) (rstart cr) low"
      from assms sr best True have le: "?ins \<le> ?n"
        by (auto simp: findRegion_def Let_def split: if_splits)
      with assms sr best True have r: "r = ?ins"
        and s': "s' = setSearchCache (rstart cr) ?ins
                   (s1\<lparr> regions := take ?ins (regions s1) @ [newRegion cr] @ drop ?ins (regions s1) \<rparr>)"
        by (auto simp: findRegion_def Let_def split: if_splits)
      have "(take ?ins (regions s1) @ [newRegion cr] @ drop ?ins (regions s1)) ! ?ins = newRegion cr"
        using le by (simp add: nth_append)
      then show ?thesis using le fl
        by (simp add: r s' setSearchCache_def newRegion_def containsRange_def)
    qed
  qed
  then show "r < length (regions s')" "containsRange (covered (regions s' ! r)) cr"
    "flushList s' = flushList s" by auto
qed

section \<open>The write loops\<close>

lemma writeFrame_refl: "writeFrame r s s"
  by (simp add: writeFrame_def)

lemma writeFrame_trans: "writeFrame r s s1 \<Longrightarrow> writeFrame r s1 s2 \<Longrightarrow> writeFrame r s s2"
  unfolding writeFrame_def by (intro conjI) (simp_all, blast+)

lemma writeFrame_heap: "writeFrame r s (s\<lparr> heap := h \<rparr>)"
  by (simp add: writeFrame_def)

lemma writeFrame_length: "writeFrame r s s' \<Longrightarrow> length (regions s') = length (regions s)"
  by (auto simp: writeFrame_def dest: map_eq_imp_length_eq)

lemma map_covered_update:
  "r < length rs \<Longrightarrow> covered reg = covered (rs ! r) \<Longrightarrow> map covered (rs[r := reg]) = map covered rs"
  by (simp add: map_update list_update_same_conv)

lemma pushNewBlock_frame: "r < length (regions s) \<Longrightarrow> writeFrame r s (pushNewBlock env r s)"
  by (simp add: writeFrame_def pushNewBlock_def map_covered_update)

lemma populateInstCache_dom:
  "populateInstCache fuel bb patchIdx i st en ident ic = Inr ic' \<Longrightarrow> dom ic \<subseteq> dom ic'"
proof (induction fuel arbitrary: ident ic)
  case 0
  then show ?case by (auto split: if_splits)
next
  case (Suc fuel)
  show ?case
  proof (cases "ident \<le> en")
    case False
    with Suc.prems show ?thesis by simp
  next
    case True
    let ?ic = "ic(address (metadata (bb ! (patchIdx + unat ident - unat st)))
              \<mapsto> \<lparr> blockIdx = word_of_nat i, instID = ident \<rparr>)"
    from True Suc.prems have "populateInstCache fuel bb patchIdx i st en (ident + 1) ?ic = Inr ic'"
      by (auto split: if_splits)
    then have "dom ?ic \<subseteq> dom ic'" by (rule Suc.IH)
    moreover have "dom ic \<subseteq> dom ?ic" by (simp add: subset_insertI)
    ultimately show ?thesis by (rule order_trans [rotated])
  qed
qed

lemma recordSequence_frame:
  assumes "recordSequence fuel env bb r patchIdx i p res s = Inr (pw, span, bw, s')"
    and "r < length (regions s)"
  shows "writeFrame r s s'" and "patchIdx < length bb"
    and "address (metadata (bb ! patchIdx)) \<in> dom (sequenceCache (regions s' ! r))"
    and "pw = patchWritten res"
  using assms
  by (auto simp: recordSequence_def Let_def writeFrame_def map_covered_update
           split: if_splits option.splits sum.splits dest!: populateInstCache_dom)

lemma writeInner_frame:
  assumes "writeInner fuel env bb r patchIdx patchEnd i s = Inr (pw, span, bw, s')"
  shows "writeFrame r s s' \<and> patchIdx < length bb
     \<and> address (metadata (bb ! patchIdx)) \<in> dom (sequenceCache (regions s' ! r))"
  using assms
proof (induction fuel arbitrary: i s)
  case 0
  then show ?case by simp
next
  case (Suc fuel)
  from Suc.prems have r: "r < length (regions s)" by (auto split: if_splits)
  define s1 where "s1 = (if length (blocks (regions s ! r)) \<le> i then pushNewBlock env r s else s)"
  have f1: "writeFrame r s s1"
    using r by (simp add: s1_def pushNewBlock_frame writeFrame_refl)
  from Suc.prems r have i: "i < length (blocks (regions s1 ! r))"
    by (auto simp: s1_def Let_def split: if_splits)
  define p where "p = blocks (regions s1 ! r) ! i"
  from Suc.prems r i obtain b where b: "heap s1 p = Some b"
    by (auto simp: s1_def p_def Let_def split: if_splits option.splits)
  define res where "res = fst (writeSequence env b (take (patchEnd - patchIdx) (drop patchIdx bb))
         \<lparr> isEntry = (patchIdx = 0), isExit = (patchEnd = length bb) \<rparr>)"
  define b' where "b' = snd (writeSequence env b (take (patchEnd - patchIdx) (drop patchIdx bb))
         \<lparr> isEntry = (patchIdx = 0), isExit = (patchEnd = length bb) \<rparr>)"
  define s2 where "s2 = s1\<lparr> heap := (heap s1)(p \<mapsto> b') \<rparr>"
  have f2: "writeFrame r s s2"
    using f1 by (auto simp: s2_def writeFrame_def)
  have r2: "r < length (regions s2)" using writeFrame_length [OF f2] r by simp
  have step: "writeInner (Suc fuel) env bb r patchIdx patchEnd i s =
      (if res_seqID res \<noteq> EXEC_BLOCK_FULL env
       then recordSequence fuel env bb r patchIdx i p res s2
       else writeInner fuel env bb r patchIdx patchEnd (i + 1) s2)"
    using r i b
    by (simp add: Let_def s1_def [symmetric] p_def [symmetric] res_def b'_def s2_def
          split_beta not_le [symmetric])
  show ?case
  proof (cases "res_seqID res \<noteq> EXEC_BLOCK_FULL env")
    case True
    with step Suc.prems
    have "recordSequence fuel env bb r patchIdx i p res s2 = Inr (pw, span, bw, s')" by simp
    from recordSequence_frame [OF this r2] f2 show ?thesis
      by (auto intro: writeFrame_trans)
  next
    case False
    with step Suc.prems
    have "writeInner fuel env bb r patchIdx patchEnd (i + 1) s2 = Inr (pw, span, bw, s')" by simp
    from Suc.IH [OF this] f2 writeFrame_length [OF f2] show ?thesis
      by (auto intro: writeFrame_trans)
  qed
qed

lemma writeFrame_seq_mono:
  "writeFrame r s s' \<Longrightarrow> a \<in> dom (sequenceCache (regions s ! r))
     \<Longrightarrow> a \<in> dom (sequenceCache (regions s' ! r))"
  by (auto simp: writeFrame_def)

lemma writeFrame_inst_mono:
  "writeFrame r s s' \<Longrightarrow> a \<in> dom (instCache (regions s ! r))
     \<Longrightarrow> a \<in> dom (instCache (regions s' ! r))"
  by (auto simp: writeFrame_def)

lemma writeLoop_frame:
  assumes "writeLoop fuel env bb r patchEnd patchIdx tr tn s = Inr (tr', tn', s')"
  shows "writeFrame r s s' \<and> (patchIdx < patchEnd \<longrightarrow>
      address (metadata (bb ! patchIdx)) \<in> dom (sequenceCache (regions s' ! r)))"
  using assms
proof (induction fuel arbitrary: patchIdx tr tn s)
  case 0
  then show ?case by (auto simp: writeFrame_refl split: if_splits)
next
  case (Suc fuel)
  show ?case
  proof (cases "patchIdx < patchEnd")
    case False
    with Suc.prems show ?thesis by (auto simp: writeFrame_refl)
  next
    case True
    with Suc.prems obtain pw span bw s1 where
      inner: "writeInner fuel env bb r patchIdx patchEnd 0 s = Inr (pw, span, bw, s1)"
      and rest: "writeLoop fuel env bb r patchEnd (patchIdx + pw) (tr + ucast span) (tn + bw) s1
                   = Inr (tr', tn', s')"
      by (auto split: sum.splits)
    from writeInner_frame [OF inner] have f1: "writeFrame r s s1"
      and k: "address (metadata (bb ! patchIdx)) \<in> dom (sequenceCache (regions s1 ! r))"
      by auto
    from Suc.IH [OF rest] have f2: "writeFrame r s1 s'" by simp
    from writeFrame_trans [OF f1 f2] writeFrame_seq_mono [OF f2 k]
    show ?thesis by simp
  qed
qed

lemma updateRegionStat_frame:
  "updateRegionStat env r t s = Inr s' \<Longrightarrow> writeFrame r s s'"
  by (auto simp: updateRegionStat_def Let_def writeFrame_def map_covered_update
           split: if_splits list.splits option.splits)

lemma registerBB_frame: "r < length (regions s) \<Longrightarrow> writeFrame r s (registerBB bb r s)"
  by (simp add: registerBB_def writeFrame_def map_covered_update)

lemma truncation_zero: "bb \<noteq> [] \<Longrightarrow>
   (truncation sc bb = 0) = (address (metadata (hd bb)) \<in> dom sc)"
  by (cases bb) auto

text \<open>The shape of a returning call.\<close>
lemma writeBasicBlock_Inr:
  assumes "writeBasicBlock env fuel bb s = Inr s'"
  obtains r s1 where "bb \<noteq> []" "findRegion env (codeRangeOf bb) s = Inr (r, s1)"
    "r < length (regions s1)" "writeFrame r s1 s'"
    "address (metadata (hd bb)) \<in> dom (sequenceCache (regions s' ! r))"
proof -
  from assms have ne: "bb \<noteq> []" by (auto simp: writeBasicBlock_def split: if_splits)
  with assms obtain r s1 where f: "findRegion env (codeRangeOf bb) s = Inr (r, s1)"
    by (auto simp: writeBasicBlock_def split: sum.splits)
  from findRegion_Inr(1) [OF f] have r: "r < length (regions s1)" .
  show thesis
  proof (cases "truncation (sequenceCache (regions s1 ! r)) bb = 0")
    case True
    with assms ne f r have "s' = s1" by (simp add: writeBasicBlock_def)
    with True ne f r show ?thesis
      by (intro that [of r s1]) (auto simp: writeFrame_refl truncation_zero)
  next
    case False
    let ?pe = "truncation (sequenceCache (regions s1 ! r)) bb"
    from assms ne f r False obtain tr tn s3 where
      loop: "writeLoop fuel env bb r ?pe 0 0 0 (registerBB bb r s1) = Inr (tr, tn, s3)"
      and upd: "updateRegionStat env r (ucast tr)
          (s3\<lparr> total_translation_size := total_translation_size s3 + unat tn,
               total_translated_size := total_translated_size s3 + unat tr \<rparr>) = Inr s'"
      by (auto simp: writeBasicBlock_def split: sum.splits)
    let ?s4 = "s3\<lparr> total_translation_size := total_translation_size s3 + unat tn,
               total_translated_size := total_translated_size s3 + unat tr \<rparr>"
    have f34: "writeFrame r s3 ?s4" by (simp add: writeFrame_def)
    from writeLoop_frame [OF loop] False
    have f13: "writeFrame r (registerBB bb r s1) s3"
      and k: "address (metadata (bb ! 0)) \<in> dom (sequenceCache (regions s3 ! r))" by auto
    have fr: "writeFrame r s1 s'"
      using registerBB_frame [OF r, of bb] f13 f34 updateRegionStat_frame [OF upd]
      by (blast intro: writeFrame_trans)
    have "writeFrame r s3 s'"
      using f34 updateRegionStat_frame [OF upd] by (blast intro: writeFrame_trans)
    from writeFrame_seq_mono [OF this k] ne
    have "address (metadata (hd bb)) \<in> dom (sequenceCache (regions s' ! r))"
      by (simp add: hd_conv_nth)
    with ne f r fr show ?thesis by (intro that [of r s1]) auto
  qed
qed

lemma candidates_head: "r < n \<Longrightarrow> candidates r n = r # [Suc r ..< min (r + 3) n]"
  by (simp add: candidates_def upt_conv_Cons)

text \<open>
  C4.  \<^verbatim>\<open>writeBasicBlock\<close> is idempotent: when a call on \<open>B\<close> returns the state
  \<open>s'\<close>, a second call on \<open>B\<close> in \<open>s'\<close> returns \<open>s'\<close> again, whatever the number of
  loop iterations it is allowed (none is needed): it finds the address of the first
  patch in the \<^verbatim>\<open>sequenceCache\<close> of the chosen region and computes \<^verbatim>\<open>patchEnd == 0\<close>.
\<close>

theorem writeBasicBlock_idempotent:
  assumes "writeBasicBlock env fuel bb s = Inr s'"
  shows "writeBasicBlock env fuel' bb s' = Inr s' \<and> computedPatchEnd env bb s' = 0"
proof -
  let ?cr = "codeRangeOf bb"
  from assms obtain r s1 where ne: "bb \<noteq> []"
    and f: "findRegion env ?cr s = Inr (r, s1)"
    and r: "r < length (regions s1)" and fr: "writeFrame r s1 s'"
    and k: "address (metadata (hd bb)) \<in> dom (sequenceCache (regions s' ! r))"
    by (rule writeBasicBlock_Inr)
  have len: "length (regions s') = length (regions s1)" by (rule writeFrame_length [OF fr])
  have "map covered (regions s') ! r = map covered (regions s1) ! r"
    using fr by (simp add: writeFrame_def)
  then have cov: "covered (regions s' ! r) = covered (regions s1 ! r)" using r len by simp
  have sc: "searchCache s' = \<lparr> sc_address = rstart ?cr, sc_regionIdx = r \<rparr>"
    using fr findRegion_Inr(3) [OF f] by (simp add: writeFrame_def)
  have r': "r < length (regions s')" using r len by simp
  have sr: "searchRegion (rstart ?cr) s' = Inr (r, s')"
    using r' sc by (auto simp: searchRegion_def)
  have scan: "scanCandidates env ?cr s' (candidates r (length (regions s'))) 0xFFFFFFFF
                (length (regions s')) = Inl r"
    using findRegion_Inr(2) [OF f] cov by (simp add: candidates_head [OF r'])
  have "setSearchCache (rstart ?cr) r s' = s'"
    using sc by (simp add: setSearchCache_def)
  with sr scan have f': "findRegion env ?cr s' = Inr (r, s')" by (simp add: findRegion_def)
  have t: "truncation (sequenceCache (regions s' ! r)) bb = 0"
    using k ne by (simp add: truncation_zero)
  from f' t ne r' show ?thesis by (simp add: writeBasicBlock_def computedPatchEnd_def)
qed

theorem writeBasicBlock_idempotent_witness:
  "writeBasicBlock (simpleEnv 12) someFuel blockA newManager = Inr stateA
     \<and> writeBasicBlock (simpleEnv 12) 0 blockA stateA = Inr stateA
     \<and> computedPatchEnd (simpleEnv 12) blockA stateA = 0"
  using run_blockA writeBasicBlock_idempotent [OF run_blockA, of 0] by simp

lemma unat_succ16: "unat (w :: 16 word) < 65535 \<Longrightarrow> unat (w + 1) = unat w + 1"
  by (simp add: unat_word_ariths)

lemma populateInstCache_covers:
  assumes "unat st \<le> unat ident" "unat ident \<le> unat en + 1" "unat en < 65535"
    "unat st \<le> unat en" "patchIdx + unat en - unat st < length bb"
  shows "populateInstCache fuel bb patchIdx i st en ident ic \<noteq> Inl PatchOutOfBounds
    \<and> (\<forall>ic'. populateInstCache fuel bb patchIdx i st en ident ic = Inr ic' \<longrightarrow>
         (\<forall>k. unat ident \<le> k \<and> k \<le> unat en \<longrightarrow>
            address (metadata (bb ! (patchIdx + k - unat st))) \<in> dom ic'))"
  using assms(1,2)
proof (induction fuel arbitrary: ident ic)
  case 0
  then show ?case by (auto simp: word_le_nat_alt)
next
  case (Suc fuel)
  show ?case
  proof (cases "ident \<le> en")
    case False
    then show ?thesis by (auto simp: word_le_nat_alt)
  next
    case True
    then have le: "unat ident \<le> unat en" by (simp add: word_le_nat_alt)
    let ?a = "address (metadata (bb ! (patchIdx + unat ident - unat st)))"
    let ?ic = "ic(?a \<mapsto> \<lparr> blockIdx = word_of_nat i, instID = ident \<rparr>)"
    have su: "unat (ident + 1) = unat ident + 1" using le assms(3) by (simp add: unat_succ16)
    have inb: "\<not> (patchIdx + unat ident < unat st
                  \<or> length bb \<le> patchIdx + unat ident - unat st)"
      using Suc.prems(1) le assms(5) by auto
    have step: "populateInstCache (Suc fuel) bb patchIdx i st en ident ic
        = populateInstCache fuel bb patchIdx i st en (ident + 1) ?ic"
      using True inb by simp
    have IH: "populateInstCache fuel bb patchIdx i st en (ident + 1) ?ic \<noteq> Inl PatchOutOfBounds
       \<and> (\<forall>ic'. populateInstCache fuel bb patchIdx i st en (ident + 1) ?ic = Inr ic' \<longrightarrow>
         (\<forall>k. unat (ident + 1) \<le> k \<and> k \<le> unat en \<longrightarrow>
            address (metadata (bb ! (patchIdx + k - unat st))) \<in> dom ic'))"
      using Suc.prems le su by (intro Suc.IH) auto
    have "address (metadata (bb ! (patchIdx + k - unat st))) \<in> dom ic'"
      if r: "populateInstCache fuel bb patchIdx i st en (ident + 1) ?ic = Inr ic'"
        and k: "unat ident \<le> k" "k \<le> unat en" for ic' k
    proof (cases "k = unat ident")
      case True
      have "?a \<in> dom ?ic" by simp
      with populateInstCache_dom [OF r] True show ?thesis by blast
    next
      case False
      with k su have "unat (ident + 1) \<le> k" by simp
      with IH r k show ?thesis by blast
    qed
    with IH step show ?thesis by simp
  qed
qed

lemma recordSequence_covers:
  assumes h: "heap s p = Some b'" and pw1: "1 \<le> patchWritten res"
    and pwle: "patchIdx + patchWritten res \<le> patchEnd" and pe: "patchEnd \<le> length bb"
    and ids: "unat (getSeqStart env b' (res_seqID res)) + patchWritten res
                = unat (getSeqEnd env b' (res_seqID res)) + 1"
    and en: "unat (getSeqEnd env b' (res_seqID res)) < 65535"
    and r: "r < length (regions s)"
  shows "recordSequence fuel env bb r patchIdx i p res s \<noteq> Inl PatchOutOfBounds
    \<and> (\<forall>pw span bw s'. recordSequence fuel env bb r patchIdx i p res s = Inr (pw, span, bw, s') \<longrightarrow>
          pw = patchWritten res
          \<and> (\<forall>k. patchIdx \<le> k \<and> k < patchIdx + pw \<longrightarrow>
                address (metadata (bb ! k)) \<in> dom (instCache (regions s' ! r))))"
proof -
  let ?st = "getSeqStart env b' (res_seqID res)" and ?en = "getSeqEnd env b' (res_seqID res)"
  let ?pop = "populateInstCache fuel bb patchIdx i ?st ?en ?st (instCache (regions s ! r))"
  have sten: "unat ?st \<le> unat ?en" using ids pw1 by simp
  have last: "patchIdx + unat ?en - unat ?st < length bb" using ids pw1 pwle pe by simp
  from populateInstCache_covers [of ?st ?st ?en patchIdx bb fuel i "instCache (regions s ! r)"]
    sten en last
  have pop: "?pop \<noteq> Inl PatchOutOfBounds"
    and cov: "\<And>ic' k. ?pop = Inr ic' \<Longrightarrow> unat ?st \<le> k \<Longrightarrow> k \<le> unat ?en \<Longrightarrow>
                address (metadata (bb ! (patchIdx + k - unat ?st))) \<in> dom ic'"
    by auto
  have idx: "patchIdx < length bb" using pw1 pwle pe by simp
  have nz: "\<not> (patchIdx + patchWritten res = 0 \<or> length bb \<le> patchIdx + patchWritten res - 1)"
    using pw1 pwle pe by simp
  have not_oob: "recordSequence fuel env bb r patchIdx i p res s \<noteq> Inl PatchOutOfBounds"
    using h idx nz pop by (auto simp: recordSequence_def Let_def split: sum.splits)
  have "pw = patchWritten res \<and> (\<forall>k. patchIdx \<le> k \<and> k < patchIdx + pw \<longrightarrow>
                address (metadata (bb ! k)) \<in> dom (instCache (regions s' ! r)))"
    if rs: "recordSequence fuel env bb r patchIdx i p res s = Inr (pw, span, bw, s')"
    for pw span bw s'
  proof -
    from rs h idx nz obtain ic' where ic': "?pop = Inr ic'"
      and pw: "pw = patchWritten res"
      and s': "instCache (regions s' ! r) = ic'"
      using r by (auto simp: recordSequence_def Let_def split: sum.splits)
    have "address (metadata (bb ! k)) \<in> dom ic'" if k: "patchIdx \<le> k" "k < patchIdx + pw" for k
    proof -
      let ?k = "k - patchIdx + unat ?st"
      have "unat ?st \<le> ?k" "?k \<le> unat ?en" using k pw ids by auto
      from cov [OF ic' this] k show ?thesis by simp
    qed
    with pw s' show ?thesis by simp
  qed
  with not_oob show ?thesis by blast
qed

lemma writeInner_covers:
  assumes c: "writeContract env" and lt: "patchIdx < patchEnd" and pe: "patchEnd \<le> length bb"
  shows "writeInner fuel env bb r patchIdx patchEnd i s \<noteq> Inl PatchOutOfBounds
    \<and> (\<forall>pw span bw s'. writeInner fuel env bb r patchIdx patchEnd i s = Inr (pw, span, bw, s') \<longrightarrow>
          1 \<le> pw \<and> patchIdx + pw \<le> patchEnd
          \<and> (\<forall>k. patchIdx \<le> k \<and> k < patchIdx + pw \<longrightarrow>
                address (metadata (bb ! k)) \<in> dom (instCache (regions s' ! r))))"
proof (induction fuel arbitrary: i s)
  case 0
  then show ?case by simp
next
  case (Suc fuel)
  show ?case
  proof (cases "r < length (regions s)")
    case False
    then show ?thesis by simp
  next
    case r: True
    define s1 where "s1 = (if length (blocks (regions s ! r)) \<le> i then pushNewBlock env r s else s)"
    have r1: "r < length (regions s1)" using r by (simp add: s1_def pushNewBlock_def)
    show ?thesis
    proof (cases "i < length (blocks (regions s1 ! r))")
      case False
      then show ?thesis using r by (simp add: Let_def s1_def [symmetric])
    next
      case i: True
      define p where "p = blocks (regions s1 ! r) ! i"
      show ?thesis
      proof (cases "heap s1 p")
        case None
        then show ?thesis using r i
          by (simp add: Let_def s1_def [symmetric] p_def [symmetric] not_le [symmetric])
      next
        case (Some b)
        let ?ps = "take (patchEnd - patchIdx) (drop patchIdx bb)"
        let ?ty = "\<lparr> isEntry = (patchIdx = 0), isExit = (patchEnd = length bb) \<rparr>"
        define res where "res = fst (writeSequence env b ?ps ?ty)"
        define b' where "b' = snd (writeSequence env b ?ps ?ty)"
        define s2 where "s2 = s1\<lparr> heap := (heap s1)(p \<mapsto> b') \<rparr>"
        have r2: "r < length (regions s2)" using r1 by (simp add: s2_def)
        have h2: "heap s2 p = Some b'" by (simp add: s2_def)
        have step: "writeInner (Suc fuel) env bb r patchIdx patchEnd i s =
            (if res_seqID res \<noteq> EXEC_BLOCK_FULL env
             then recordSequence fuel env bb r patchIdx i p res s2
             else writeInner fuel env bb r patchIdx patchEnd (i + 1) s2)"
          using r i Some
          by (simp add: Let_def s1_def [symmetric] p_def [symmetric] res_def b'_def s2_def
                split_beta not_le [symmetric])
        show ?thesis
        proof (cases "res_seqID res \<noteq> EXEC_BLOCK_FULL env")
          case False
          with step Suc.IH [of "i + 1" s2] show ?thesis by simp
        next
          case True
          have len: "length ?ps = patchEnd - patchIdx" using pe by simp
          then have ne: "?ps \<noteq> []" using lt by auto
          from c [unfolded writeContract_def, rule_format, OF ne, of b ?ty] True
          have pw1: "1 \<le> patchWritten res" and pwl: "patchWritten res \<le> length ?ps"
            and ids: "unat (getSeqStart env b' (res_seqID res)) + patchWritten res
                        = unat (getSeqEnd env b' (res_seqID res)) + 1"
            and en: "unat (getSeqEnd env b' (res_seqID res)) < 65535"
            by (simp_all add: res_def b'_def)
          have "patchWritten res \<le> patchEnd - patchIdx" using pwl unfolding len .
          then have pwle: "patchIdx + patchWritten res \<le> patchEnd" using lt by arith
          from recordSequence_covers [OF h2 pw1 pwle pe ids en r2, of fuel i] pw1 pwle
          have "recordSequence fuel env bb r patchIdx i p res s2 \<noteq> Inl PatchOutOfBounds
            \<and> (\<forall>pw span bw s'. recordSequence fuel env bb r patchIdx i p res s2
                    = Inr (pw, span, bw, s') \<longrightarrow>
                  1 \<le> pw \<and> patchIdx + pw \<le> patchEnd
                  \<and> (\<forall>k. patchIdx \<le> k \<and> k < patchIdx + pw \<longrightarrow>
                        address (metadata (bb ! k)) \<in> dom (instCache (regions s' ! r))))"
            by auto
          with step True show ?thesis by simp
        qed
      qed
    qed
  qed
qed

lemma writeLoop_covers:
  assumes c: "writeContract env" and pe: "patchEnd \<le> length bb"
  shows "writeLoop fuel env bb r patchEnd patchIdx tr tn s \<noteq> Inl PatchOutOfBounds
    \<and> (\<forall>tr' tn' s'. writeLoop fuel env bb r patchEnd patchIdx tr tn s = Inr (tr', tn', s') \<longrightarrow>
          (\<forall>k. patchIdx \<le> k \<and> k < patchEnd \<longrightarrow>
                address (metadata (bb ! k)) \<in> dom (instCache (regions s' ! r))))"
proof (induction fuel arbitrary: patchIdx tr tn s)
  case 0
  then show ?case by auto
next
  case (Suc fuel)
  show ?case
  proof (cases "patchIdx < patchEnd")
    case False
    then show ?thesis by auto
  next
    case True
    note inner = writeInner_covers [OF c True pe, of fuel r 0 s]
    show ?thesis
    proof (cases "writeInner fuel env bb r patchIdx patchEnd 0 s")
      case (Inl e)
      with inner True show ?thesis by auto
    next
      case (Inr x)
      then obtain pw span bw s1 where
        x: "writeInner fuel env bb r patchIdx patchEnd 0 s = Inr (pw, span, bw, s1)"
        by (cases x) auto
      with inner have pw: "1 \<le> pw" "patchIdx + pw \<le> patchEnd"
        and cov1: "\<And>k. patchIdx \<le> k \<Longrightarrow> k < patchIdx + pw \<Longrightarrow>
                 address (metadata (bb ! k)) \<in> dom (instCache (regions s1 ! r))"
        by auto
      let ?rest = "writeLoop fuel env bb r patchEnd (patchIdx + pw) (tr + ucast span) (tn + bw) s1"
      have step: "writeLoop (Suc fuel) env bb r patchEnd patchIdx tr tn s = ?rest"
        using True x by simp
      note IH = Suc.IH [of "patchIdx + pw" "tr + ucast span" "tn + bw" s1]
      have "address (metadata (bb ! k)) \<in> dom (instCache (regions s' ! r))"
        if rest: "?rest = Inr (tr', tn', s')" and k: "patchIdx \<le> k" "k < patchEnd"
        for tr' tn' s' k
      proof (cases "k < patchIdx + pw")
        case True
        from writeLoop_frame [OF rest] have "writeFrame r s1 s'" by simp
        from writeFrame_inst_mono [OF this cov1 [OF k(1) True]] show ?thesis .
      next
        case False
        with IH rest k show ?thesis by auto
      qed
      with IH step show ?thesis by auto
    qed
  qed
qed

lemma truncation_le: "truncation sc bb \<le> length bb"
  by (induction bb) auto

lemma findRegion_not_patch: "findRegion env cr s \<noteq> Inl PatchOutOfBounds"
proof -
  obtain low s1 where "searchRegion (rstart cr) s = Inr (low, s1)" by (rule searchRegion_Inr)
  then show ?thesis
    by (auto simp: findRegion_def Let_def split: sum.splits prod.splits if_splits)
qed

lemma updateRegionStat_not_patch: "updateRegionStat env r t s \<noteq> Inl PatchOutOfBounds"
  by (auto simp: updateRegionStat_def Let_def split: list.splits option.splits)

text \<open>
  C10.  \<^verbatim>\<open>writeBasicBlock\<close> reads the first and the last patch before anything else, so
  the empty list is an access out of bounds; for a non-empty list, and a
  \<^verbatim>\<open>writeSequence\<close> that keeps its contract, no access to the list of patches (the
  truncation loop, the cache population at \<^verbatim>\<open>patchIdx + id - startID\<close>, the counters
  at \<^verbatim>\<open>patchIdx + patchWritten - 1\<close>) is out of bounds, whatever the state and the
  number of iterations.
\<close>

theorem writeBasicBlock_patch_accesses:
  "writeBasicBlock env fuel [] s = Inl PatchOutOfBounds
   \<and> (writeContract env \<longrightarrow> bb \<noteq> [] \<longrightarrow>
        writeBasicBlock env fuel bb s \<noteq> Inl PatchOutOfBounds)"
proof -
  have "writeBasicBlock env fuel bb s \<noteq> Inl PatchOutOfBounds"
    if c: "writeContract env" and ne: "bb \<noteq> []"
  proof (cases "findRegion env (codeRangeOf bb) s")
    case (Inl e)
    with findRegion_not_patch [of env "codeRangeOf bb" s] ne show ?thesis
      by (simp add: writeBasicBlock_def)
  next
    case (Inr x)
    obtain r s1 where x: "x = (r, s1)" by (cases x)
    let ?pe = "truncation (sequenceCache (regions s1 ! r)) bb"
    from writeLoop_covers [OF c truncation_le, of fuel bb r "sequenceCache (regions s1 ! r)" 0 0 0
        "registerBB bb r s1"]
    have "writeLoop fuel env bb r ?pe 0 0 0 (registerBB bb r s1) \<noteq> Inl PatchOutOfBounds"
      by simp
    with Inr x ne updateRegionStat_not_patch show ?thesis
      by (auto simp: writeBasicBlock_def split: sum.splits)
  qed
  then show ?thesis by (simp add: writeBasicBlock_def)
qed

lemma simpleFit_le: "simpleFit room ps \<le> length ps"
  by (induction ps arbitrary: room) auto

lemma unat_of_nat16: "n < 65536 \<Longrightarrow> unat (word_of_nat n :: 16 word) = n"
  by (simp add: unat_of_nat)

lemma simpleEnv_contract: "writeContract (simpleEnv cap)"
proof -
  have "1 \<le> patchWritten (fst (simpleWrite cap b ps ty))
      \<and> patchWritten (fst (simpleWrite cap b ps ty)) \<le> length ps
      \<and> unat (simpleSeqStart (snd (simpleWrite cap b ps ty)) (res_seqID (fst (simpleWrite cap b ps ty))))
          + patchWritten (fst (simpleWrite cap b ps ty))
         = unat (simpleSeqEnd (snd (simpleWrite cap b ps ty)) (res_seqID (fst (simpleWrite cap b ps ty)))) + 1
      \<and> unat (simpleSeqEnd (snd (simpleWrite cap b ps ty)) (res_seqID (fst (simpleWrite cap b ps ty)))) < 65535"
    if full: "res_seqID (fst (simpleWrite cap b ps ty)) \<noteq> 0xFFFF" for b ps ty
  proof -
    define n where "n = simpleFit (cap - sb_used b) ps"
    from full have ok: "\<not> (n = 0 \<or> 65535 \<le> length (sb_insts b) + n \<or> 65535 \<le> length (sb_seqs b))"
      by (auto simp: simpleWrite_def Let_def n_def split: if_splits)
    then have n: "0 < n" "length (sb_insts b) + n < 65535" "length (sb_seqs b) < 65535" by auto
    have sid: "unat (word_of_nat (length (sb_seqs b)) :: 16 word) = length (sb_seqs b)"
      using n by (simp add: unat_of_nat16)
    have st: "unat (word_of_nat (length (sb_insts b)) :: 16 word) = length (sb_insts b)"
      using n by (simp add: unat_of_nat16)
    have en: "unat (word_of_nat (length (sb_insts b) + n - 1) :: 16 word) = length (sb_insts b) + n - 1"
      by (rule unat_of_nat16) (use n in simp)
    have "n \<le> length ps" by (simp add: n_def simpleFit_le)
    with ok n sid st en show ?thesis
      by (simp add: simpleWrite_def Let_def n_def [symmetric] simpleSeqStart_def simpleSeqEnd_def
            del: of_nat_add of_nat_diff)
  qed
  then show ?thesis by (simp add: writeContract_def simpleEnv_def)
qed

theorem writeBasicBlock_patch_accesses_witness:
  "writeBasicBlock (simpleEnv 12) someFuel [] (newManager :: SimpleBlock ExecBlockManager)
      = Inl PatchOutOfBounds
   \<and> writeContract (simpleEnv 12) \<and> blockA \<noteq> []
   \<and> writeBasicBlock (simpleEnv 12) someFuel blockA newManager \<noteq> Inl PatchOutOfBounds
   \<and> writeBasicBlock (simpleEnv 12) someFuel blockA newManager = Inr stateA"
proof -
  have ne: "blockA \<noteq> []" by (simp add: blockA_def)
  from writeBasicBlock_patch_accesses [of "simpleEnv 12" someFuel newManager blockA]
    simpleEnv_contract [of 12] ne run_blockA
  show ?thesis by simp
qed

text \<open>The two ways in which a call returns.\<close>

lemma writeBasicBlock_cases:
  assumes "writeBasicBlock env fuel bb s = Inr s'"
  obtains (hit) r where "findRegion env (codeRangeOf bb) s = Inr (r, s')"
      "truncation (sequenceCache (regions s' ! r)) bb = 0"
  | (written) r s1 tr tn s3 where "findRegion env (codeRangeOf bb) s = Inr (r, s1)"
      "truncation (sequenceCache (regions s1 ! r)) bb \<noteq> 0"
      "writeLoop fuel env bb r (truncation (sequenceCache (regions s1 ! r)) bb) 0 0 0
         (registerBB bb r s1) = Inr (tr, tn, s3)"
      "writeFrame r s3 s'"
proof -
  from assms have ne: "bb \<noteq> []" by (auto simp: writeBasicBlock_def split: if_splits)
  with assms obtain r s1 where f: "findRegion env (codeRangeOf bb) s = Inr (r, s1)"
    by (auto simp: writeBasicBlock_def split: sum.splits)
  from findRegion_Inr(1) [OF f] have r: "r < length (regions s1)" .
  show thesis
  proof (cases "truncation (sequenceCache (regions s1 ! r)) bb = 0")
    case True
    with assms ne f r have "s' = s1" by (simp add: writeBasicBlock_def)
    with True f show ?thesis by (intro hit [of r]) auto
  next
    case False
    let ?pe = "truncation (sequenceCache (regions s1 ! r)) bb"
    from assms ne f r False obtain tr tn s3 where
      loop: "writeLoop fuel env bb r ?pe 0 0 0 (registerBB bb r s1) = Inr (tr, tn, s3)"
      and upd: "updateRegionStat env r (ucast tr)
          (s3\<lparr> total_translation_size := total_translation_size s3 + unat tn,
               total_translated_size := total_translated_size s3 + unat tr \<rparr>) = Inr s'"
      by (auto simp: writeBasicBlock_def split: sum.splits)
    let ?s4 = "s3\<lparr> total_translation_size := total_translation_size s3 + unat tn,
               total_translated_size := total_translated_size s3 + unat tr \<rparr>"
    have "writeFrame r s3 ?s4" by (simp add: writeFrame_def)
    with updateRegionStat_frame [OF upd] have "writeFrame r s3 s'"
      by (blast intro: writeFrame_trans)
    with f False loop show ?thesis by (intro written [of r s1 tr tn s3]) auto
  qed
qed

text \<open>
  C2.  When \<^verbatim>\<open>writeBasicBlock(B)\<close> returns (with a \<^verbatim>\<open>writeSequence\<close> that keeps its
  contract), every patch address of \<open>B\<close> at an index below the computed \<^verbatim>\<open>patchEnd\<close>
  is a key of the \<^verbatim>\<open>instCache\<close> of the chosen region, and the address of the first
  patch is a key of the \<^verbatim>\<open>sequenceCache\<close> of that region.
\<close>

theorem writeBasicBlock_populates_caches:
  assumes "writeContract env" and "writeBasicBlock env fuel bb s = Inr s'"
  shows "bb \<noteq> [] \<and> chosenRegion env bb s < length (regions s')
    \<and> (\<forall>k. k < computedPatchEnd env bb s \<longrightarrow>
          address (metadata (bb ! k)) \<in> dom (instCache (regions s' ! chosenRegion env bb s)))
    \<and> address (metadata (hd bb)) \<in> dom (sequenceCache (regions s' ! chosenRegion env bb s))"
proof -
  from assms(2) obtain r s1 where ne: "bb \<noteq> []"
    and f: "findRegion env (codeRangeOf bb) s = Inr (r, s1)"
    and r: "r < length (regions s1)" and fr: "writeFrame r s1 s'"
    and k: "address (metadata (hd bb)) \<in> dom (sequenceCache (regions s' ! r))"
    by (rule writeBasicBlock_Inr)
  have cr: "chosenRegion env bb s = r" using f by (simp add: chosenRegion_def)
  have pe: "computedPatchEnd env bb s = truncation (sequenceCache (regions s1 ! r)) bb"
    using f by (simp add: computedPatchEnd_def)
  have len: "r < length (regions s')" using writeFrame_length [OF fr] r by simp
  have "address (metadata (bb ! k)) \<in> dom (instCache (regions s' ! r))"
    if "k < truncation (sequenceCache (regions s1 ! r)) bb" for k
    using assms(2)
  proof (cases rule: writeBasicBlock_cases)
    case (hit r')
    with f that show ?thesis by simp
  next
    case (written r' s1' tr tn s3)
    with f have eq: "r' = r" "s1' = s1" by auto
    from writeLoop_covers [OF assms(1) truncation_le, of fuel bb r "sequenceCache (regions s1 ! r)"
        0 0 0 "registerBB bb r s1"] written(3) that
    have "address (metadata (bb ! k)) \<in> dom (instCache (regions s3 ! r))"
      unfolding eq by auto
    from writeFrame_inst_mono [OF _ this] written(4) show ?thesis unfolding eq by blast
  qed
  with ne cr pe len k show ?thesis by simp
qed

theorem writeBasicBlock_populates_caches_witness:
  "writeContract (simpleEnv 12)
   \<and> writeBasicBlock (simpleEnv 12) someFuel blockA newManager = Inr stateA
   \<and> chosenRegion (simpleEnv 12) blockA (newManager :: SimpleBlock ExecBlockManager) = 0
   \<and> computedPatchEnd (simpleEnv 12) blockA (newManager :: SimpleBlock ExecBlockManager) = 3
   \<and> 0x1000 \<in> dom (instCache (regions stateA ! 0))
   \<and> 0x1004 \<in> dom (instCache (regions stateA ! 0))
   \<and> 0x1008 \<in> dom (instCache (regions stateA ! 0))
   \<and> 0x1000 \<in> dom (sequenceCache (regions stateA ! 0))"
proof -
  have c: "chosenRegion (simpleEnv 12) blockA (newManager :: SimpleBlock ExecBlockManager) = 0"
    by (simp add: chosenRegion_def find_defs newManager_def blockA_def)
  have p: "computedPatchEnd (simpleEnv 12) blockA (newManager :: SimpleBlock ExecBlockManager) = 3"
    by (simp add: computedPatchEnd_def find_defs newManager_def blockA_def)
  note t = writeBasicBlock_populates_caches [OF simpleEnv_contract run_blockA, unfolded c p]
  from t have "address (metadata (blockA ! 0)) \<in> dom (instCache (regions stateA ! 0))"
    "address (metadata (blockA ! 1)) \<in> dom (instCache (regions stateA ! 0))"
    "address (metadata (blockA ! 2)) \<in> dom (instCache (regions stateA ! 0))"
    "address (metadata (hd blockA)) \<in> dom (sequenceCache (regions stateA ! 0))"
    by simp_all
  then show ?thesis using simpleEnv_contract [of 12] run_blockA c p
    by (simp add: blockA_def mkPatch_def)
qed

section \<open>The lazy sequence split\<close>

lemma run_blockTail: "writeBasicBlock (simpleEnv 12) someFuel blockTail stateA = Inr stateTail"
  by (simp add: blockTail_def stateA_def stateTail_def run_defs) (simp add: numeral_2_eq_2)





section \<open>Where a new region is inserted\<close>

lemma findInsert_spec:
  "ins \<le> findInsert rs a ins
   \<and> (\<forall>j. ins \<le> j \<and> j < findInsert rs a ins \<longrightarrow>
         j < length rs \<and> rstart (covered (rs ! j)) \<le> a)
   \<and> (findInsert rs a ins < length rs \<longrightarrow> a < rstart (covered (rs ! findInsert rs a ins)))"
proof (induction rs a ins rule: findInsert.induct)
  case (1 rs a ins)
  show ?case
  proof (cases "ins < length rs \<and> \<not> a < rstart (covered (rs ! ins))")
    case False
    then have "findInsert rs a ins = ins" by (subst findInsert.simps) auto
    with False show ?thesis by auto
  next
    case True
    then have eq: "findInsert rs a ins = findInsert rs a (ins + 1)"
      by (subst findInsert.simps) auto
    from "1.IH" True
    have IH: "ins + 1 \<le> findInsert rs a (ins + 1)"
      "\<And>j. ins + 1 \<le> j \<Longrightarrow> j < findInsert rs a (ins + 1) \<Longrightarrow>
         j < length rs \<and> rstart (covered (rs ! j)) \<le> a"
      "findInsert rs a (ins + 1) < length rs \<Longrightarrow>
         a < rstart (covered (rs ! findInsert rs a (ins + 1)))"
      by auto
    have "j < length rs \<and> rstart (covered (rs ! j)) \<le> a"
      if "ins \<le> j" "j < findInsert rs a (ins + 1)" for j
    proof (cases "j = ins")
      case True
      with \<open>ins < length rs \<and> \<not> a < rstart (covered (rs ! ins))\<close> show ?thesis by auto
    next
      case False
      with that IH(2) [of j] show ?thesis by simp
    qed
    with IH(1,3) show ?thesis unfolding eq by auto
  qed
qed

lemma sortedByStart_nth:
  "sortedByStart rs \<Longrightarrow> i \<le> j \<Longrightarrow> j < length rs \<Longrightarrow>
     rstart (covered (rs ! i)) \<le> rstart (covered (rs ! j))"
  by (cases "i = j") (auto simp: sortedByStart_def sorted_wrt_iff_nth_less)

lemma insert_sortedByStart:
  assumes "sortedByStart rs" and "ins \<le> length rs"
    and before: "\<And>j. j < ins \<Longrightarrow> rstart (covered (rs ! j)) \<le> rstart (covered new)"
    and after: "\<And>j. ins \<le> j \<Longrightarrow> j < length rs \<Longrightarrow>
                  rstart (covered new) \<le> rstart (covered (rs ! j))"
  shows "sortedByStart (take ins rs @ [new] @ drop ins rs)"
proof -
  let ?P = "\<lambda>r q. rstart (covered r) \<le> rstart (covered q)"
  have s: "sorted_wrt ?P rs" using assms(1) by (simp add: sortedByStart_def)
  have t: "sorted_wrt ?P (take ins rs)" using s by (rule sorted_wrt_take)
  have d: "sorted_wrt ?P (drop ins rs)" using s by (rule sorted_wrt_drop)
  have b: "\<forall>x \<in> set (take ins rs). ?P x new"
    using before assms(2) by (auto simp: in_set_conv_nth)
  have a: "\<forall>y \<in> set (drop ins rs). ?P new y"
    using after assms(2) by (auto simp: in_set_conv_nth)
  have c: "\<forall>x \<in> set (take ins rs). \<forall>y \<in> set (drop ins rs). ?P x y"
  proof (intro ballI)
    fix x y assume "x \<in> set (take ins rs)" "y \<in> set (drop ins rs)"
    then obtain i j where "i < ins" "i < length rs" "x = rs ! i"
      "j < length rs - ins" "y = rs ! (ins + j)"
      using assms(2) by (auto simp: in_set_conv_nth)
    with sortedByStart_nth [OF assms(1), of i "ins + j"] show "?P x y" by simp
  qed
  from t d a b c show ?thesis by (simp add: sortedByStart_def sorted_wrt_append)
qed

lemma searchRegion_low:
  assumes "searchRegion a s = Inr (low, s1)" and "cacheSlotOK s"
  shows "low = 0 \<or> (low < length (regions s) \<and> rstart (covered (regions s ! low)) \<le> a)"
proof (cases "length (regions s) = 0 \<or> sc_address (searchCache s) = a")
  case True
  with assms show ?thesis by (auto simp: searchRegion_def cacheSlotOK_def split: if_splits)
next
  case False
  from searchLoop_total [of 0 "length (regions s)" "regions s" a] False
  obtain i where "searchLoop (regions s) a 0 (length (regions s)) = Some (Inr i)"
    "i < length (regions s)" "i = 0 \<or> \<not> a < rstart (covered (regions s ! i))" by auto
  with False assms(1) show ?thesis by (auto simp: searchRegion_def)
qed

section \<open>Invariants of the reachable states\<close>

lemma properBlock_range:
  assumes "properBlock bb"
  shows "bb \<noteq> []" and "rstart (codeRangeOf bb) < rend (codeRangeOf bb)"
proof -
  from assms show ne: "bb \<noteq> []" by (simp add: properBlock_def)
  let ?a = "\<lambda>p. address (metadata p)" and ?e = "\<lambda>p. address (metadata p) + instSize (metadata p)"
  from assms have pos: "\<And>p. p \<in> set bb \<Longrightarrow> ?a p < ?e p"
    and srt: "sorted_wrt (\<lambda>p q. ?e p \<le> ?a q) bb"
    by (auto simp: properBlock_def list_all_iff)
  have "?a (hd bb) \<le> ?a (last bb)"
  proof (cases "length bb = 1")
    case True
    then show ?thesis by (cases bb) auto
  next
    case False
    with ne have l: "0 < length bb - 1" "length bb - 1 < length bb" by (cases bb; auto)+
    from srt l have "?e (bb ! 0) \<le> ?a (bb ! (length bb - 1))"
      by (simp add: sorted_wrt_iff_nth_less)
    moreover have "?a (bb ! 0) < ?e (bb ! 0)" using pos [of "bb ! 0"] ne by simp
    ultimately show ?thesis using ne by (simp add: hd_conv_nth last_conv_nth)
  qed
  moreover have "?a (last bb) < ?e (last bb)" using pos [of "last bb"] ne by simp
  ultimately show "rstart (codeRangeOf bb) < rend (codeRangeOf bb)"
    by (simp add: codeRangeOf_def)
qed

text \<open>The three predicates only look at the covered ranges.\<close>

lemma regionsOrdered_map:
  "regionsOrdered rs = sorted_wrt (\<lambda>c d. rstart c \<le> rstart d \<and> rend c \<le> rstart d) (map covered rs)"
  by (simp add: regionsOrdered_def sorted_wrt_map)

lemma properRegions_map:
  "properRegions rs = list_all (\<lambda>c. rstart c < rend c) (map covered rs)"
  by (simp add: properRegions_def list_all_iff)

lemma searchSpec_map:
  assumes "map covered rs' = map covered rs"
  shows "searchSpec rs' a i = searchSpec rs a i"
proof -
  from assms have len: "length rs' = length rs" by (rule map_eq_imp_length_eq)
  have nth: "covered (rs' ! j) = covered (rs ! j)" if "j < length rs" for j
    using arg_cong [OF assms, of "\<lambda>l. l ! j"] that len by simp
  have ex: "(\<exists>r \<in> set rs'. P (covered r)) = (\<exists>r \<in> set rs. P (covered r))" for P
  proof -
    have "(\<exists>r \<in> set rs'. P (covered r)) = (\<exists>c \<in> set (map covered rs'). P c)" by auto
    also have "\<dots> = (\<exists>c \<in> set (map covered rs). P c)" by (simp add: assms)
    also have "\<dots> = (\<exists>r \<in> set rs. P (covered r))" by auto
    finally show ?thesis .
  qed
  have e: "(rs' = []) = (rs = [])" using len by auto
  show ?thesis
    unfolding searchSpec_def e len ex [of "\<lambda>c. contains c a"] ex [of "\<lambda>c. rstart c \<le> a"]
    using nth by (auto simp: len)
qed

lemma cacheSlotOK_map:
  assumes "map covered (regions s') = map covered (regions s)" "searchCache s' = searchCache s"
  shows "cacheSlotOK s' = cacheSlotOK s"
proof -
  from assms(1) have len: "length (regions s') = length (regions s)" by (rule map_eq_imp_length_eq)
  have nth: "covered (regions s' ! j) = covered (regions s ! j)" if "j < length (regions s)" for j
    using arg_cong [OF assms(1), of "\<lambda>l. l ! j"] that len by simp
  show ?thesis unfolding cacheSlotOK_def assms(2) len using nth by auto
qed

lemma cacheInv_cong:
  assumes "map covered (regions s') = map covered (regions s)" "searchCache s' = searchCache s"
    and "cacheInv s"
  shows "cacheInv s'"
proof -
  from assms(1) have len: "length (regions s') = length (regions s)" by (rule map_eq_imp_length_eq)
  then have e: "(regions s' = []) = (regions s = [])" by auto
  show ?thesis
    using assms(3)
    unfolding cacheInv_def e cacheSlotOK_map [OF assms(1,2)] searchSpec_map [OF assms(1)]
      regionsOrdered_map properRegions_map assms(1) assms(2) .
qed

lemma writeFrame_cacheInv: "writeFrame r s s' \<Longrightarrow> cacheInv s \<Longrightarrow> cacheInv s'"
  by (rule cacheInv_cong) (auto simp: writeFrame_def)

lemma searchRegion_cases:
  assumes "searchRegion a s = Inr (i, s1)"
  shows "s1 = s \<or> (regions s \<noteq> []
      \<and> searchLoop (regions s) a 0 (length (regions s)) = Some (Inr i)
      \<and> s1 = s\<lparr> searchCache := \<lparr> sc_address = a, sc_regionIdx = i \<rparr> \<rparr>)"
  using assms
  by (auto simp: searchRegion_def split: if_splits option.splits sum.splits)

lemma searchRegion_cacheInv:
  assumes "cacheInv s" and "searchRegion a s = Inr (i, s1)"
  shows "cacheInv s1"
proof -
  from searchRegion_cases [OF assms(2)] show ?thesis
  proof
    assume "s1 = s" with assms(1) show ?thesis by simp
  next
    assume h: "regions s \<noteq> [] \<and> searchLoop (regions s) a 0 (length (regions s)) = Some (Inr i)
      \<and> s1 = s\<lparr> searchCache := \<lparr> sc_address = a, sc_regionIdx = i \<rparr> \<rparr>"
    then have ne: "regions s \<noteq> []" and sl: "searchLoop (regions s) a 0 (length (regions s)) = Some (Inr i)"
      and s1: "s1 = s\<lparr> searchCache := \<lparr> sc_address = a, sc_regionIdx = i \<rparr> \<rparr>" by auto
    from searchLoop_total [of 0 "length (regions s)" "regions s" a] ne sl
    have i: "i < length (regions s)" "i = 0 \<or> \<not> a < rstart (covered (regions s ! i))" by auto
    have slot: "cacheSlotOK s1" using i by (auto simp: cacheSlotOK_def s1)
    have spec: "searchSpec (regions s) a i" if "regionsOrdered (regions s)"
      using searchLoop_spec [OF that ne, of a] sl by auto
    from assms(1) slot spec show ?thesis by (auto simp: cacheInv_def s1)
  qed
qed

lemma findRegion_regions:
  assumes "findRegion env cr s = Inr (r, s')"
  shows "regions s' = regions s
    \<or> (r < length (regions s) \<and> regions s' = (regions s)[r := (regions s ! r)
            \<lparr> covered := extendCovered (covered (regions s ! r)) cr \<rparr>])
    \<or> (r \<le> length (regions s)
        \<and> regions s' = take r (regions s) @ [newRegion cr] @ drop r (regions s))"
proof -
  obtain low s1 where sr: "searchRegion (rstart cr) s = Inr (low, s1)"
    and rs: "regions s1 = regions s" by (rule searchRegion_Inr)
  let ?n = "length (regions s1)"
  have cands: "\<And>i. i \<in> set (candidates low ?n) \<Longrightarrow> i < ?n" by (auto simp: candidates_def)
  show ?thesis
  proof (cases "scanCandidates env cr s1 (candidates low ?n) 0xFFFFFFFF ?n")
    case (Inl i)
    with assms sr rs show ?thesis by (auto simp: findRegion_def setSearchCache_def)
  next
    case (Inr x)
    obtain bc br where x: "x = (bc, br)" by (cases x)
    show ?thesis
    proof (cases "br = ?n")
      case False
      with scanCandidates_Inr [OF Inr [unfolded x]] cands have "br < ?n" by auto
      with assms sr rs Inr x False show ?thesis
        by (auto simp: findRegion_def setSearchCache_def)
    next
      case True
      with assms sr rs Inr x show ?thesis
        by (auto simp: findRegion_def setSearchCache_def Let_def split: if_splits)
    qed
  qed
qed

lemma extendCovered_proper:
  "rstart cov < rend cov \<Longrightarrow> rstart (extendCovered cov cr) < rend (extendCovered cov cr)"
  by (auto simp: extendCovered_def Let_def)

lemma properRegions_update:
  "properRegions rs \<Longrightarrow> rstart (covered reg) < rend (covered reg) \<Longrightarrow> properRegions (rs[r := reg])"
  by (auto simp: properRegions_def list_all_iff dest!: set_update_subset_insert [THEN subsetD])

lemma properRegions_insert:
  "properRegions rs \<Longrightarrow> rstart (covered reg) < rend (covered reg)
     \<Longrightarrow> properRegions (take r rs @ [reg] @ drop r rs)"
  by (auto simp: properRegions_def list_all_iff dest: in_set_takeD in_set_dropD)

lemma properRegions_nth: "properRegions rs \<Longrightarrow> r < length rs \<Longrightarrow> rstart (covered (rs ! r)) < rend (covered (rs ! r))"
  by (simp add: properRegions_def list_all_length)

lemma findRegion_cacheInv:
  assumes pr: "properRegions (regions s)" and cr: "rstart cr < rend cr"
    and f: "findRegion env cr s = Inr (r, s')"
  shows "cacheInv s'"
proof -
  note fr = findRegion_Inr [OF f]
  have nr: "rstart (covered (newRegion cr)) < rend (covered (newRegion cr))"
    using cr by (simp add: newRegion_def)
  from findRegion_regions [OF f] have p': "properRegions (regions s')"
  proof (elim disjE conjE)
    assume "regions s' = regions s" with pr show ?thesis by simp
  next
    assume r: "r < length (regions s)" and e: "regions s' = (regions s)[r := (regions s ! r)
            \<lparr> covered := extendCovered (covered (regions s ! r)) cr \<rparr>]"
    show ?thesis unfolding e
      by (rule properRegions_update [OF pr])
         (simp add: extendCovered_proper properRegions_nth [OF pr r])
  next
    assume "regions s' = take r (regions s) @ [newRegion cr] @ drop r (regions s)"
    with properRegions_insert [OF pr nr, of r] show ?thesis by simp
  qed
  have c: "contains (covered (regions s' ! r)) (rstart cr)"
    using fr(2) cr by (auto simp: contains_def containsRange_def)
  then have slot: "cacheSlotOK s'" using fr(1,3) by (auto simp: cacheSlotOK_def contains_def)
  have "regions s' ! r \<in> set (regions s')" using fr(1) by simp
  with c have "\<exists>q \<in> set (regions s'). contains (covered q) (rstart cr)" by blast
  with c fr(1) have "searchSpec (regions s') (rstart cr) r"
    by (auto simp: searchSpec_def)
  with p' slot fr(3) show ?thesis by (simp add: cacheInv_def)
qed

lemma writeBasicBlock_cacheInv:
  assumes "cacheInv s" "properBlock bb" "writeBasicBlock env fuel bb s = Inr s'"
  shows "cacheInv s'"
proof -
  from assms(3) obtain r s1 where f: "findRegion env (codeRangeOf bb) s = Inr (r, s1)"
    and fr: "writeFrame r s1 s'" by (rule writeBasicBlock_Inr)
  from assms(1) have "properRegions (regions s)" by (simp add: cacheInv_def)
  from findRegion_cacheInv [OF this properBlock_range(2) [OF assms(2)] f]
  have "cacheInv s1" .
  with fr show ?thesis by (rule writeFrame_cacheInv)
qed

lemma splitAt_frame:
  "splitAt env a r il s = Inr (l, s') \<Longrightarrow> r < length (regions s) \<Longrightarrow>
     map covered (regions s') = map covered (regions s) \<and> searchCache s' = searchCache s"
  by (auto simp: splitAt_def Let_def split_beta map_covered_update
           split: if_splits option.splits)

lemma getSeqLoc_cacheInv:
  assumes "cacheInv s" "getSeqLoc env a s = Inr (l, s')"
  shows "cacheInv s'"
proof -
  obtain r s1 where sr: "searchRegion a s = Inr (r, s1)" by (rule searchRegion_Inr)
  from searchRegion_cacheInv [OF assms(1) sr] have i1: "cacheInv s1" .
  show ?thesis
  proof (cases "s' = s1")
    case True with i1 show ?thesis by simp
  next
    case False
    with assms(2) sr obtain il where "splitAt env a r il s1 = Inr (l, s')" "r < length (regions s1)"
      by (auto simp: getSeqLoc_def split: if_splits option.splits)
    from splitAt_frame [OF this] i1 show ?thesis by (auto intro: cacheInv_cong)
  qed
qed

lemma getExecBlock_cacheInv:
  assumes "cacheInv s" "getExecBlock env a s = Inr (p, s')"
  shows "cacheInv s'"
proof -
  from assms(2) obtain l s1 where g: "getSeqLoc env a s = Inr (l, s1)"
    by (auto simp: getExecBlock_def split: sum.splits)
  with assms(2)
  have "map covered (regions s') = map covered (regions s1) \<and> searchCache s' = searchCache s1"
    by (auto simp: getExecBlock_def split: option.splits)
  with getSeqLoc_cacheInv [OF assms(1) g] show ?thesis by (auto intro: cacheInv_cong)
qed

lemma getBBInfo_cacheInv:
  assumes "cacheInv s" "getBBInfo a s = Inr (b, s')"
  shows "cacheInv s'"
proof -
  obtain r s1 where sr: "searchRegion a s = Inr (r, s1)" by (rule searchRegion_Inr)
  with assms(2) have "s' = s1"
    by (auto simp: getBBInfo_def split: if_splits option.splits)
  with searchRegion_cacheInv [OF assms(1) sr] show ?thesis by simp
qed

lemma analyzeInstMetadata_cacheInv:
  assumes "cacheInv s" "analyzeInstMetadata env md ty s = Inr (an, s')"
  shows "cacheInv s'"
proof (cases md)
  case None
  with assms show ?thesis by (simp add: analyzeInstMetadata_def)
next
  case (Some m)
  obtain r s1 where sr: "searchRegion (address m) s = Inr (r, s1)" by (rule searchRegion_Inr)
  from searchRegion_cacheInv [OF assms(1) sr] have i1: "cacheInv s1" .
  from assms(2) Some sr
  have "map covered (regions s') = map covered (regions s1) \<and> searchCache s' = searchCache s1"
    by (auto simp: analyzeInstMetadata_def Let_def map_covered_update
             split: if_splits option.splits)
  with i1 show ?thesis by (auto intro: cacheInv_cong)
qed

lemma clearCacheRange_cacheInv: "cacheInv s \<Longrightarrow> cacheInv (clearCacheRange rg s)"
  by (rule cacheInv_cong) (auto simp: clearCacheRange_def)

lemma clearCacheSet_cacheInv: "cacheInv s \<Longrightarrow> cacheInv (clearCacheSet rgs s)"
  by (rule cacheInv_cong) (auto simp: clearCacheSet_def fold_clearCacheRange)

lemma clearCacheAll_cacheInv: "clearCacheAll s = Inr s' \<Longrightarrow> cacheInv s'"
  using clearCacheAll_result [of s] by (auto simp: cacheInv_def properRegions_def)

lemma eraseEach_subset:
  "eraseEach ds s = Inr s' \<Longrightarrow> set (regions s') \<subseteq> set (regions s)"
proof (induction ds arbitrary: s)
  case Nil
  then show ?case by simp
next
  case (Cons d ds)
  then obtain s1 where e: "eraseRegion d s = Inr s1" and r: "eraseEach ds s1 = Inr s'"
    by (auto split: sum.splits)
  from e have "set (regions s1) \<subseteq> set (regions s)"
    by (auto simp: eraseRegion_def split: if_splits dest: in_set_takeD in_set_dropD)
  with Cons.IH [OF r] show ?case by blast
qed

lemma searchSpec_zero:
  assumes "properRegions rs" "regionsOrdered rs" "rs \<noteq> []"
  shows "searchSpec rs 0 0"
proof -
  have first: "j = 0" if "j < length rs" "rstart (covered (rs ! j)) \<le> 0" for j
  proof (rule ccontr)
    assume "j \<noteq> 0"
    then have "0 < j" by simp
    from regionsOrdered_nth [OF assms(2) this that(1)] that(2)
    have "rend (covered (rs ! 0)) \<le> 0" by simp
    moreover from properRegions_nth [OF assms(1), of 0] assms(3)
    have "rstart (covered (rs ! 0)) < rend (covered (rs ! 0))" by simp
    ultimately show False by (simp add: word_le_nat_alt word_less_nat_alt)
  qed
  have "contains (covered (rs ! 0)) 0" if "q \<in> set rs" "contains (covered q) 0" for q
  proof -
    from that obtain j where "j < length rs" "q = rs ! j" by (auto simp: in_set_conv_nth)
    with that first [of j] show ?thesis by (auto simp: contains_def)
  qed
  moreover have "rstart (covered (rs ! 0)) \<le> 0" if "q \<in> set rs" "rstart (covered q) \<le> 0" for q
  proof -
    from that obtain j where "j < length rs" "q = rs ! j" by (auto simp: in_set_conv_nth)
    with that first [of j] show ?thesis by auto
  qed
  ultimately show ?thesis using assms(3) first by (auto simp: searchSpec_def)
qed

lemma flushCommit_cacheInv:
  assumes "cacheInv s" "flushCommit s = Inr s'"
  shows "cacheInv s'"
proof (cases "0 < length (flushList s)")
  case False
  with assms show ?thesis by (simp add: flushCommit_def)
next
  case True
  with assms(2) obtain s1 where e: "eraseEach (remdups_adj (rev (sort (flushList s)))) s = Inr s1"
    and s': "s' = s1\<lparr> flushList := [], globalAnalysisCache := Map.empty,
                      searchCache := \<lparr> sc_address = 0, sc_regionIdx = 0 \<rparr> \<rparr>"
    by (auto simp: flushCommit_def split: sum.splits)
  from eraseEach_subset [OF e] assms(1) have p: "properRegions (regions s1)"
    by (auto simp: cacheInv_def properRegions_def list_all_iff)
  have slot: "cacheSlotOK s'" by (simp add: cacheSlotOK_def s')
  from p slot searchSpec_zero [OF p] show ?thesis by (auto simp: cacheInv_def s')
qed

lemma reachable_cacheInv: "reachable env s \<Longrightarrow> cacheInv s"
proof (induction rule: reachable.induct)
  case by_fresh
  show ?case by (simp add: cacheInv_def newManager_def properRegions_def)
next
  case (by_write s bb fuel s')
  then show ?case by (blast intro: writeBasicBlock_cacheInv)
next
  case (by_seqLoc s a l s')
  then show ?case by (blast intro: getSeqLoc_cacheInv)
next
  case (by_execBlock s a p s')
  then show ?case by (blast intro: getExecBlock_cacheInv)
next
  case (by_bbInfo s a b s')
  then show ?case by (blast intro: getBBInfo_cacheInv)
next
  case (by_analyze s md ty an s')
  then show ?case by (blast intro: analyzeInstMetadata_cacheInv)
next
  case (by_clearRange s rg)
  then show ?case by (blast intro: clearCacheRange_cacheInv)
next
  case (by_clearSet s rgs)
  then show ?case by (blast intro: clearCacheSet_cacheInv)
next
  case (by_clearAll s s')
  then show ?case by (blast intro: clearCacheAll_cacheInv)
next
  case (by_flush s s')
  then show ?case by (blast intro: flushCommit_cacheInv)
qed

text \<open>
  C6.  In every reachable state whose regions are sorted and do not overlap,
  \<^verbatim>\<open>searchRegion(addr)\<close> returns, and what it returns is the index of the region whose
  covered range contains \<open>addr\<close> or, failing that, the index of the last region whose
  \<^verbatim>\<open>covered.start\<close> is at most \<open>addr\<close>, and 0 when \<open>addr\<close> precedes all regions or there
  is no region; the index is inside the array unless the array is empty.
\<close>

theorem searchRegion_meets_spec:
  assumes "reachable env s" and "regionsOrdered (regions s)"
  shows "\<exists>i s'. searchRegion a s = Inr (i, s') \<and> searchSpec (regions s) a i"
proof -
  from reachable_cacheInv [OF assms(1)] have inv: "cacheInv s" .
  show ?thesis
  proof (cases "regions s = []")
    case True
    then show ?thesis by (simp add: searchRegion_def searchSpec_def)
  next
    case ne: False
    show ?thesis
    proof (cases "sc_address (searchCache s) = a")
      case True
      with inv ne assms(2) show ?thesis by (auto simp: searchRegion_def cacheInv_def)
    next
      case False
      from searchLoop_spec [OF assms(2) ne, of a]
      obtain i where "searchLoop (regions s) a 0 (length (regions s)) = Some (Inr i)"
        "searchSpec (regions s) a i" by auto
      with ne False show ?thesis by (simp add: searchRegion_def)
    qed
  qed
qed

lemma properBlock_blockA: "properBlock blockA"
  by (simp add: properBlock_def blockA_def mkPatch_def)

lemma properBlock_blockB: "properBlock blockB"
  by (simp add: properBlock_def blockB_def mkPatch_def)

lemma reachable_stateA: "reachable (simpleEnv 12) stateA"
  by (rule reachable.by_write [OF reachable.by_fresh properBlock_blockA run_blockA])

lemma reachable_stateAB: "reachable (simpleEnv 12) stateAB"
  by (rule reachable.by_write [OF reachable_stateA properBlock_blockB run_blockB])

theorem searchRegion_meets_spec_witness:
  "reachable (simpleEnv 12) stateAB \<and> regionsOrdered (regions stateAB)
   \<and> (case searchRegion 0x9004 stateAB of
         Inl e \<Rightarrow> False
       | Inr (i, s') \<Rightarrow> i = 1 \<and> searchSpec (regions stateAB) 0x9004 i)
   \<and> (case searchRegion 0x5000 stateAB of
         Inl e \<Rightarrow> False
       | Inr (i, s') \<Rightarrow> i = 0 \<and> searchSpec (regions stateAB) 0x5000 i)"
proof -
  have o: "regionsOrdered (regions stateAB)"
    by (simp add: regionsOrdered_def stateAB_def regionOf_def)
  have e1: "\<exists>x. searchRegion 0x9004 stateAB = Inr (1, x)"
    by (simp add: searchRegion_def searchLoop.simps stateAB_def regionOf_def)
  have e2: "\<exists>x. searchRegion 0x5000 stateAB = Inr (0, x)"
    by (simp add: searchRegion_def searchLoop.simps stateAB_def regionOf_def)
  from searchRegion_meets_spec [OF reachable_stateAB o, where a = "0x9004"] e1
  have 1: "case searchRegion 0x9004 stateAB of
         Inl e \<Rightarrow> False
       | Inr (i, s') \<Rightarrow> i = 1 \<and> searchSpec (regions stateAB) 0x9004 i" by auto
  from searchRegion_meets_spec [OF reachable_stateAB o, where a = "0x5000"] e2
  have 2: "case searchRegion 0x5000 stateAB of
         Inl e \<Rightarrow> False
       | Inr (i, s') \<Rightarrow> i = 0 \<and> searchSpec (regions stateAB) 0x5000 i" by auto
  from reachable_stateAB o 1 2 show ?thesis by simp
qed

text \<open>
  C1 (as amended).  In every reachable state whose regions are sorted by
  \<^verbatim>\<open>covered.start\<close>, the new-region path of \<^verbatim>\<open>findRegion\<close> (the one that makes the
  array longer) inserts a region with \<^verbatim>\<open>covered = codeRange\<close>, and nothing else, at
  the index it returns, and the array is again sorted by \<^verbatim>\<open>covered.start\<close>.  The
  covered ranges of distinct regions may overlap.
\<close>

theorem findRegion_new_region_keeps_start_order:
  assumes reach: "reachable env s" and srt: "sortedByStart (regions s)"
    and f: "findRegion env cr s = Inr (r, s')"
    and new: "length (regions s') \<noteq> length (regions s)"
  shows "regions s' = take r (regions s) @ [newRegion cr] @ drop r (regions s)
    \<and> r \<le> length (regions s) \<and> sortedByStart (regions s')"
proof -
  obtain low s1 where sr: "searchRegion (rstart cr) s = Inr (low, s1)"
    and rs: "regions s1 = regions s" by (rule searchRegion_Inr)
  let ?rs = "regions s"
  let ?ins = "findInsert ?rs (rstart cr) low"
  from f sr new rs have ins: "?ins \<le> length ?rs" and r: "r = ?ins"
    and s': "regions s' = take ?ins ?rs @ [newRegion cr] @ drop ?ins ?rs"
    by (auto simp: findRegion_def setSearchCache_def Let_def
             split: sum.splits prod.splits if_splits)
  note fi = findInsert_spec [of low ?rs "rstart cr"]
  have low: "low = 0 \<or> (low < length ?rs \<and> rstart (covered (?rs ! low)) \<le> rstart cr)"
  proof (cases "?rs = []")
    case True
    with sr show ?thesis by (simp add: searchRegion_def)
  next
    case False
    with reachable_cacheInv [OF reach] have "cacheSlotOK s" by (simp add: cacheInv_def)
    from searchRegion_low [OF sr this] show ?thesis .
  qed
  have before: "rstart (covered (?rs ! j)) \<le> rstart (covered (newRegion cr))" if "j < ?ins" for j
  proof (cases "low \<le> j")
    case True
    with that fi show ?thesis by (simp add: newRegion_def)
  next
    case False
    with low have "low < length ?rs" "rstart (covered (?rs ! low)) \<le> rstart cr" by auto
    moreover from sortedByStart_nth [OF srt, of j low] False \<open>low < length ?rs\<close>
    have "rstart (covered (?rs ! j)) \<le> rstart (covered (?rs ! low))" by simp
    ultimately show ?thesis by (simp add: newRegion_def)
  qed
  have after: "rstart (covered (newRegion cr)) \<le> rstart (covered (?rs ! j))"
    if "?ins \<le> j" "j < length ?rs" for j
  proof -
    from that have "?ins < length ?rs" by simp
    with fi have "rstart cr < rstart (covered (?rs ! ?ins))" by simp
    with sortedByStart_nth [OF srt that] show ?thesis by (simp add: newRegion_def)
  qed
  from insert_sortedByStart [OF srt ins before after] s' r ins show ?thesis by simp
qed

theorem findRegion_new_region_keeps_start_order_witness:
  "reachable (simpleEnv 12) stateA \<and> sortedByStart (regions stateA)
   \<and> (case findRegion (simpleEnv 12) (codeRangeOf blockTail) stateA of
         Inl e \<Rightarrow> False
       | Inr (r, s') \<Rightarrow> r = 1 \<and> length (regions s') = 2 \<and> sortedByStart (regions s')
                        \<and> map covered (regions s') = [\<lparr> rstart = 0x1000, rend = 0x100C \<rparr>,
                                                       \<lparr> rstart = 0x1008, rend = 0x1014 \<rparr>])"
proof -
  have srt: "sortedByStart (regions stateA)" by (simp add: sortedByStart_def stateA_def)
  have slot: "reachable (simpleEnv 12) stateA" by (rule reachable_stateA)
  have "\<exists>x. findRegion (simpleEnv 12) (codeRangeOf blockTail) stateA = Inr (1, x)
          \<and> map covered (regions x) = [\<lparr> rstart = 0x1000, rend = 0x100C \<rparr>,
                                        \<lparr> rstart = 0x1008, rend = 0x1014 \<rparr>]"
    by (simp add: find_defs stateA_def blockTail_def)
  then obtain x where f: "findRegion (simpleEnv 12) (codeRangeOf blockTail) stateA = Inr (1, x)"
    and m: "map covered (regions x) = [\<lparr> rstart = 0x1000, rend = 0x100C \<rparr>,
                                        \<lparr> rstart = 0x1008, rend = 0x1014 \<rparr>]"
    by (elim exE conjE)
  from m have len: "length (regions x) = 2" by (auto dest: map_eq_imp_length_eq)
  then have new: "length (regions x) \<noteq> length (regions stateA)" by (simp add: stateA_def)
  from findRegion_new_region_keeps_start_order [OF slot srt f new]
  have "sortedByStart (regions x)" by (elim conjE)
  with srt slot f m len show ?thesis by simp
qed

text \<open>
  C1 as stated fails.  With buffers of 12 bytes, \<open>blockA\<close> fills the buffer of the
  region \<^verbatim>\<open>[0x1000, 0x100C)\<close>, which is left with no budget.  \<open>blockTail\<close>, covering
  \<^verbatim>\<open>[0x1008, 0x1014)\<close>, is neither contained in it nor affordable as an extension, so
  the new-region path inserts a second region that overlaps the first.
\<close>

theorem regions_overlap_counterexample:
  "writeBasicBlock (simpleEnv 12) someFuel blockA newManager = Inr stateA
   \<and> writeBasicBlock (simpleEnv 12) someFuel blockTail stateA = Inr stateTail
   \<and> map covered (regions stateTail) = [\<lparr> rstart = 0x1000, rend = 0x100C \<rparr>,
                                         \<lparr> rstart = 0x1008, rend = 0x1014 \<rparr>]
   \<and> \<not> regionsOrdered (regions stateTail)"
  using run_blockA run_blockTail by (simp add: regionsOrdered_def stateTail_def regionOf_def)

section \<open>What becomes of the search-cache slot\<close>

text \<open>
  C8 (as amended).  The slot is overwritten by every \<^verbatim>\<open>findRegion\<close> with the index it
  returns, and reset to \<^verbatim>\<open>{0, 0}\<close> by a \<^verbatim>\<open>flushCommit\<close> that has something to erase.
  \<^verbatim>\<open>eraseRegion\<close>, \<^verbatim>\<open>clearCache()\<close> and \<^verbatim>\<open>clearCache(rangeSet)\<close> leave the slot as
  it is: after \<^verbatim>\<open>clearCache()\<close> the array is empty and \<^verbatim>\<open>searchRegion\<close> returns 0
  without reading the slot; \<^verbatim>\<open>clearCache(rangeSet)\<close> resets both counters to 1 and
  changes neither the array nor the slot.  In every reachable state with at least one
  region the cached index is inside the array, and while the regions are sorted and do
  not overlap it is what the search itself returns for the cached address.
\<close>

theorem searchCache_maintenance:
  "(findRegion env cr s = Inr (i, s1) \<longrightarrow>
        searchCache s1 = \<lparr> sc_address = rstart cr, sc_regionIdx = i \<rparr>)
   \<and> (flushList s \<noteq> [] \<and> flushCommit s = Inr s2 \<longrightarrow>
        searchCache s2 = \<lparr> sc_address = 0, sc_regionIdx = 0 \<rparr>)
   \<and> (eraseRegion r s = Inr s3 \<longrightarrow> searchCache s3 = searchCache s)
   \<and> (\<exists>s4. clearCacheAll s = Inr s4 \<and> regions s4 = [] \<and> searchCache s4 = searchCache s
          \<and> searchRegion a s4 = Inr (0, s4))
   \<and> searchCache (clearCacheSet rgs s) = searchCache s
   \<and> regions (clearCacheSet rgs s) = regions s
   \<and> total_translated_size (clearCacheSet rgs s) = 1
   \<and> total_translation_size (clearCacheSet rgs s) = 1
   \<and> (reachable env s \<longrightarrow> regions s \<noteq> [] \<longrightarrow>
        sc_regionIdx (searchCache s) < length (regions s))
   \<and> (reachable env s \<longrightarrow> regions s \<noteq> [] \<longrightarrow> regionsOrdered (regions s) \<longrightarrow>
        searchSpec (regions s) (sc_address (searchCache s)) (sc_regionIdx (searchCache s)))"
proof -
  have "sc_regionIdx (searchCache s) < length (regions s)"
    if "reachable env s" "regions s \<noteq> []"
    using reachable_cacheInv [OF that(1)] that(2) by (auto simp: cacheInv_def cacheSlotOK_def)
  moreover
  have "searchSpec (regions s) (sc_address (searchCache s)) (sc_regionIdx (searchCache s))"
    if "reachable env s" "regions s \<noteq> []" "regionsOrdered (regions s)"
    using reachable_cacheInv [OF that(1)] that(2,3) by (auto simp: cacheInv_def)
  moreover
  have "searchCache s2 = \<lparr> sc_address = 0, sc_regionIdx = 0 \<rparr>"
    if "flushList s \<noteq> []" "flushCommit s = Inr s2"
    using that by (auto simp: flushCommit_def split: sum.splits)
  moreover have "searchCache s3 = searchCache s" if "eraseRegion r s = Inr s3"
    using that by (auto simp: eraseRegion_def split: if_splits)
  moreover from clearCacheAll_result [of s]
  have "\<exists>s4. clearCacheAll s = Inr s4 \<and> regions s4 = [] \<and> searchCache s4 = searchCache s
          \<and> searchRegion a s4 = Inr (0, s4)"
    by (auto simp: searchRegion_def)
  ultimately show ?thesis
    using findRegion_cache [of env cr s i s1] fold_clearCacheRange [of rgs s]
    by (simp add: clearCacheSet_def)
qed


theorem searchCache_maintenance_witness:
  "(case findRegion (simpleEnv 12) (codeRangeOf blockB) stateA of
      Inl e \<Rightarrow> False
    | Inr (i, s1) \<Rightarrow> i = 1 \<and> searchCache s1 = \<lparr> sc_address = 0x9000, sc_regionIdx = 1 \<rparr>)
   \<and> flushList (clearCacheRange \<lparr> rstart = 0x8FFF, rend = 0x9001 \<rparr> stateAB) \<noteq> []
   \<and> (case flushCommit (clearCacheRange \<lparr> rstart = 0x8FFF, rend = 0x9001 \<rparr> stateAB) of
        Inl e \<Rightarrow> False
      | Inr s2 \<Rightarrow> searchCache s2 = \<lparr> sc_address = 0, sc_regionIdx = 0 \<rparr>)
   \<and> (case eraseRegion 1 stateAB of
        Inl e \<Rightarrow> False
      | Inr s3 \<Rightarrow> searchCache s3 = \<lparr> sc_address = 0x9000, sc_regionIdx = 1 \<rparr>)
   \<and> reachable (simpleEnv 12) stateAB \<and> regions stateAB \<noteq> []
   \<and> regionsOrdered (regions stateAB)
   \<and> sc_regionIdx (searchCache stateAB) < length (regions stateAB)
   \<and> searchSpec (regions stateAB) 0x9000 1"
proof -
  have ne: "regions stateAB \<noteq> []" by (simp add: stateAB_def)
  have o: "regionsOrdered (regions stateAB)"
    by (simp add: regionsOrdered_def stateAB_def regionOf_def)
  from searchCache_maintenance [of "simpleEnv 12" _ stateAB] reachable_stateAB ne o
  have 4: "sc_regionIdx (searchCache stateAB) < length (regions stateAB)"
    and 5: "searchSpec (regions stateAB) (sc_address (searchCache stateAB))
              (sc_regionIdx (searchCache stateAB))" by blast+
  have 6: "searchSpec (regions stateAB) 0x9000 1" using 5 by (simp add: stateAB_def)
  let ?p = "clearCacheRange \<lparr> rstart = 0x8FFF, rend = 0x9001 \<rparr> stateAB"
  have "\<exists>x. findRegion (simpleEnv 12) (codeRangeOf blockB) stateA = Inr (1, x)"
    by (simp add: find_defs stateA_def blockB_def)
  then obtain x where f: "findRegion (simpleEnv 12) (codeRangeOf blockB) stateA = Inr (1, x)" ..
  have cr: "rstart (codeRangeOf blockB) = 0x9000"
    by (simp add: codeRangeOf_def blockB_def mkPatch_def)
  have p: "flushList ?p \<noteq> []"
    by (simp add: clearCacheRange_def stateAB_def regionOf_def overlaps_def)
  have "\<exists>y. flushCommit ?p = Inr y"
    by (simp add: flushCommit_def clearCacheRange_def stateAB_def regionOf_def overlaps_def
          eraseRegion_def)
  then obtain y where c: "flushCommit ?p = Inr y" ..
  have "\<exists>z. eraseRegion 1 stateAB = Inr z"
    by (simp add: eraseRegion_def stateAB_def)
  then obtain z where e: "eraseRegion 1 stateAB = Inr z" ..
  have sc: "searchCache stateAB = \<lparr> sc_address = 0x9000, sc_regionIdx = 1 \<rparr>"
    by (simp add: stateAB_def)
  from searchCache_maintenance [of "simpleEnv 12" "codeRangeOf blockB" stateA 1 x]
  have 1: "searchCache x = \<lparr> sc_address = 0x9000, sc_regionIdx = 1 \<rparr>"
    using f cr by simp
  from searchCache_maintenance [of _ _ ?p _ _ y] p c
  have 2: "searchCache y = \<lparr> sc_address = 0, sc_regionIdx = 0 \<rparr>" by simp
  from searchCache_maintenance [of _ _ stateAB _ _ _ 1 z] e sc
  have 3: "searchCache z = \<lparr> sc_address = 0x9000, sc_regionIdx = 1 \<rparr>" by simp
  show ?thesis using f c e p 1 2 3 4 6 reachable_stateAB ne o by simp
qed

text \<open>
  C8 as stated fails: in \<open>stateAB\<close> the slot holds address \<open>0x9000\<close> and index 1, and
  it still does after \<^verbatim>\<open>clearCache(rangeSet)\<close> has reset the counters, and after
  \<^verbatim>\<open>clearCache()\<close> has erased every region.
\<close>

theorem searchCache_not_reset_counterexample:
  "searchCache (clearCacheSet [\<lparr> rstart = 0x8FFF, rend = 0x9001 \<rparr>] stateAB)
       = \<lparr> sc_address = 0x9000, sc_regionIdx = 1 \<rparr>
   \<and> total_translated_size (clearCacheSet [\<lparr> rstart = 0x8FFF, rend = 0x9001 \<rparr>] stateAB) = 1
   \<and> total_translation_size (clearCacheSet [\<lparr> rstart = 0x8FFF, rend = 0x9001 \<rparr>] stateAB) = 1
   \<and> (case clearCacheAll stateAB of
         Inl e \<Rightarrow> False
       | Inr s' \<Rightarrow> regions s' = []
                    \<and> searchCache s' = \<lparr> sc_address = 0x9000, sc_regionIdx = 1 \<rparr>)"
  by (simp add: clearCacheSet_def clearCacheRange_def clearCacheAll.simps eraseRegion_def
        stateAB_def regionOf_def)

section \<open>The selection policy where no cost is truncated\<close>

text \<open>
  The cost that \<^verbatim>\<open>findRegion\<close> computes in an \<^verbatim>\<open>unsigned\<close> is the cost of the
  specification modulo \<open>2 ^ 32\<close>.
\<close>

lemma unat_extensionCost:
  "unat (extensionCost cov cr) = specCost cov cr mod 2 ^ 32"
proof -
  have d: "unat (ucast (x - y :: rword) :: 32 word) = (unat x - unat y) mod 2 ^ 32"
    if "y < x" for x y
  proof -
    from that have "unat (x - y) = unat x - unat y"
      by (simp add: unat_sub less_imp_le)
    then show ?thesis by (simp add: unsigned_ucast_eq take_bit_eq_mod)
  qed
  have n: "nat (max 0 (uint x - uint y)) = unat x - unat y" for x y :: rword
  proof -
    have "nat (max 0 (int (unat x) - int (unat y))) = unat x - unat y" by arith
    then show ?thesis by (simp only: uint_nat)
  qed
  have n0: "unat x - unat y = 0" if "\<not> y < x" for x y :: rword
    using that by (simp add: word_less_nat_alt)
  show ?thesis
    unfolding extensionCost_def specCost_def n
    by (auto simp: unat_word_ariths d n0 mod_add_eq)
qed


lemma scanCandidates_policy:
  assumes "\<forall>i \<in> set cands. specCost (covered (regions s ! i)) cr < 2 ^ 32"
  shows "scanCandidates env cr s cands bc br =
     (case find (\<lambda>i. containsRange (covered (regions s ! i)) cr) cands of
        Some i \<Rightarrow> Inl i
      | None \<Rightarrow>
         (case leastCost (\<lambda>i. specCost (covered (regions s ! i)) cr)
                 (filter (specGate env cr s) cands) of
            None \<Rightarrow> Inr (bc, br)
          | Some j \<Rightarrow>
              if specCost (covered (regions s ! j)) cr < unat bc
              then Inr (extensionCost (covered (regions s ! j)) cr, j)
              else Inr (bc, br)))"
  using assms
proof (induction cands arbitrary: bc br)
  case Nil
  show ?case by simp
next
  case (Cons i rest)
  let ?cost = "\<lambda>i. specCost (covered (regions s ! i)) cr"
  let ?ec = "extensionCost (covered (regions s ! i)) cr"
  from Cons.prems have small: "\<forall>i \<in> set rest. ?cost i < 2 ^ 32" and si: "?cost i < 2 ^ 32"
    by auto
  have ue: "unat ?ec = ?cost i" using si by (simp add: unat_extensionCost)
  have gate: "(unat (floatScale env (unat ?ec) (total_translation_size s) (total_translated_size s))
                < available (regions s ! i)) = specGate env cr s i"
    by (simp add: ue specGate_def)
  have lt: "(?ec < bc) = (?cost i < unat bc)" by (simp add: word_less_nat_alt ue)
  note IH = Cons.IH [OF small]
  show ?case
  proof (cases "containsRange (covered (regions s ! i)) cr")
    case True
    then show ?thesis by simp
  next
    case nc: False
    show ?thesis
    proof (cases "find (\<lambda>i. containsRange (covered (regions s ! i)) cr) rest")
      case (Some k)
      with nc IH show ?thesis by simp
    next
      case None
      show ?thesis
      proof (cases "specGate env cr s i")
        case False
        with nc None gate IH [of bc br] show ?thesis by simp
      next
        case g: True
        show ?thesis
        proof (cases "?cost i < unat bc")
          case True
          with nc None g gate lt IH [of ?ec i] show ?thesis
            by (auto simp: ue split: option.splits)
        next
          case False
          with nc None g gate lt IH [of bc br] show ?thesis
            by (auto split: option.splits)
        qed
      qed
    qed
  qed
qed

lemma leastCost_mem: "leastCost cost xs = Some j \<Longrightarrow> j \<in> set xs"
  by (induction xs arbitrary: j) (auto split: option.splits if_splits)

lemma leastCost_None: "(leastCost cost xs = None) = (xs = [])"
  by (cases xs) (auto split: option.splits)

lemma leastCost_least: "leastCost cost xs = Some j \<Longrightarrow> i \<in> set xs \<Longrightarrow> cost j \<le> cost i"
  by (induction xs arbitrary: j) (fastforce simp: leastCost_None split: option.splits if_splits)+

lemma extendCovered_union:
  "rstart (extendCovered cov cr) = min (rstart cov) (rstart cr)
   \<and> rend (extendCovered cov cr) = max (rend cov) (rend cr)"
  by (auto simp: extendCovered_def Let_def min_def max_def)

text \<open>
  \<^verbatim>\<open>findRegion\<close> follows the policy of the spec on every input in which the cost of each
  candidate is below \<open>2 ^ 32 - 1\<close>: then the 32-bit cost of the code is the cost of the
  spec, and no candidate has the cost that the code uses as ``none found yet''.
\<close>

lemma findRegion_follows_policy:
  assumes sr: "searchRegion (rstart cr) s = Inr (low, s1)"
    and small: "\<forall>i \<in> set (candidates low (length (regions s))).
                  specCost (covered (regions s ! i)) cr < 2 ^ 32 - 1"
  shows "findRegion env cr s =
     (case specChoice env cr s (candidates low (length (regions s))) of
        UseRegion i \<Rightarrow> Inr (i, setSearchCache (rstart cr) i s1)
      | ExtendRegion i \<Rightarrow>
          Inr (i, setSearchCache (rstart cr) i
                    (s1\<lparr> regions := (regions s1)[i := (regions s1 ! i)
                           \<lparr> covered := extendCovered (covered (regions s1 ! i)) cr \<rparr>] \<rparr>))
      | NewRegion \<Rightarrow>
          (let ins = findInsert (regions s1) (rstart cr) low
           in if length (regions s1) < ins then Inl OutOfBounds
              else Inr (ins, setSearchCache (rstart cr) ins
                         (s1\<lparr> regions := take ins (regions s1) @ [newRegion cr]
                                            @ drop ins (regions s1) \<rparr>))))"
proof -
  from searchRegion_cases [OF sr]
  have s1: "regions s1 = regions s" "total_translation_size s1 = total_translation_size s"
    "total_translated_size s1 = total_translated_size s" by auto
  let ?cands = "candidates low (length (regions s))"
  let ?cost = "\<lambda>i. specCost (covered (regions s ! i)) cr"
  have g: "specGate env cr s1 = specGate env cr s" by (rule ext) (simp add: specGate_def s1)
  from small have small': "\<forall>i \<in> set ?cands. specCost (covered (regions s1 ! i)) cr < 2 ^ 32"
    by (auto simp: s1)
  note scan = scanCandidates_policy [OF small', of env "0xFFFFFFFF" "length (regions s1)",
      unfolded g s1]
  have n: "j < length (regions s)" if "j \<in> set ?cands" for j
    using that by (auto simp: candidates_def)
  show ?thesis
  proof (cases "find (\<lambda>i. containsRange (covered (regions s ! i)) cr) ?cands")
    case (Some i)
    with scan sr show ?thesis by (simp add: findRegion_def specChoice_def s1)
  next
    case None
    show ?thesis
    proof (cases "leastCost ?cost (filter (specGate env cr s) ?cands)")
      case nb: None
      with None scan sr show ?thesis by (simp add: findRegion_def specChoice_def s1)
    next
      case (Some j)
      from leastCost_mem [OF Some] have j: "j \<in> set ?cands" by simp
      with small have "?cost j < unat (0xFFFFFFFF :: 32 word)" by simp
      with None Some scan
      have "scanCandidates env cr s1 ?cands 0xFFFFFFFF (length (regions s))
              = Inr (extensionCost (covered (regions s ! j)) cr, j)" by simp
      with None Some sr n [OF j] show ?thesis
        by (simp add: findRegion_def specChoice_def s1)
    qed
  qed
qed

end
